theory Spec2Isabelle
  imports Complex_Main
begin

section \<open>The particle field of script.js\<close>

text \<open>
  Numbers are JavaScript numbers in the source; they are modelled as reals. The
  canvas is not modelled: only the pool \<open>flakes\<close>, the bounds \<open>width\<close> and
  \<open>height\<close>, and the calls of \<open>Math.random()\<close>. The random source is a
  stream \<open>rnd\<close>; the state counts the calls made so far, so the \<open>n\<close>-th
  call returns \<open>rnd n\<close>.
\<close>

record flake =
  x :: real
  y :: real
  radius :: real
  speedY :: real
  speedX :: real
  alpha :: real

record snow =
  width :: real
  height :: real
  flakes :: "flake list"
  calls :: nat

text \<open>
  \<open>createFlake(extraBurst)\<close>: the object literal evaluates its fields in order, so
  the calls of \<open>Math.random()\<close> are numbered in that order; with \<open>extraBurst\<close>
  the field \<open>y\<close> makes no call. The result is the flake and the number of calls made.
\<close>

definition createFlake :: "(nat \<Rightarrow> real) \<Rightarrow> nat \<Rightarrow> real \<Rightarrow> real \<Rightarrow> bool \<Rightarrow> flake \<times> nat" where
  "createFlake rnd k w h extraBurst =
     (if extraBurst then
        (\<lparr> x = rnd k * w,
           y = h * 0.4,
           radius = 1 + rnd (k + 1) * 2,
           speedY = 0.5 + rnd (k + 2) * 1.5 + 1.2,
           speedX = (rnd (k + 3) - 0.5) * 0.4,
           alpha = 0.4 + rnd (k + 4) * 0.6 \<rparr>, k + 5)
      else
        (\<lparr> x = rnd k * w,
           y = rnd (k + 1) * h,
           radius = 0.6 + rnd (k + 2) * 1.8,
           speedY = 0.5 + rnd (k + 3) * 1.5 + 0,
           speedX = (rnd (k + 4) - 0.5) * 0.4,
           alpha = 0.4 + rnd (k + 5) * 0.6 \<rparr>, k + 6))"

definition maxFlakes :: nat where
  "maxFlakes = 140"

text \<open>The initial fill: \<open>n\<close> iterations of \<open>flakes.push(createFlake(false))\<close>.\<close>

fun fill :: "(nat \<Rightarrow> real) \<Rightarrow> nat \<Rightarrow> snow \<Rightarrow> snow" where
  "fill rnd 0 s = s"
| "fill rnd (Suc n) s =
     (let (f, k) = createFlake rnd (calls s) (width s) (height s) False
      in fill rnd n (s\<lparr> flakes := flakes s @ [f], calls := k \<rparr>))"

definition initial_snow :: "(nat \<Rightarrow> real) \<Rightarrow> real \<Rightarrow> real \<Rightarrow> snow" where
  "initial_snow rnd w h = fill rnd maxFlakes \<lparr> width = w, height = h, flakes = [], calls = 0 \<rparr>"

text \<open>
  The two wrap tests of \<open>drawSnow\<close>, applied in sequence to the object \<open>f\<close>.
\<close>

definition wrap_x :: "real \<Rightarrow> flake \<Rightarrow> flake" where
  "wrap_x w f =
     (let f1 = (if x f > w + 5 then f\<lparr> x := - 5 \<rparr> else f)
      in if x f1 < - 5 then f1\<lparr> x := w + 5 \<rparr> else f1)"

text \<open>
  One iteration of the loop of \<open>drawSnow\<close> on \<open>flakes[i]\<close>. The local \<open>f\<close>
  is the object that was in the slot when the iteration began. It is moved once. When
  it is below \<open>height\<close> the slot gets a new object from \<open>createFlake(false)\<close>
  with \<open>y = -5\<close>, and the wrap tests still act on the old object \<open>f\<close>, which
  is then no longer in the pool; otherwise the slot still holds \<open>f\<close>. The result
  is the slot, the object \<open>f\<close> (the one that is drawn) and the count of random calls.
\<close>

definition move_flake :: "flake \<Rightarrow> flake" where
  "move_flake f = (let f1 = f\<lparr> y := y f + speedY f \<rparr> in f1\<lparr> x := x f1 + speedX f1 \<rparr>)"

definition step_flake :: "(nat \<Rightarrow> real) \<Rightarrow> real \<Rightarrow> real \<Rightarrow> nat \<Rightarrow> flake \<Rightarrow> flake \<times> flake \<times> nat" where
  "step_flake rnd w h k f0 =
     (let f = move_flake f0 in
      if y f > h then
        (let (g, k') = createFlake rnd k w h False
         in (g\<lparr> y := - 5 \<rparr>, wrap_x w f, k'))
      else (wrap_x w f, wrap_x w f, k))"

text \<open>
  The loop \<open>for (i = 0; i < flakes.length; i++)\<close>, slot by slot. The result is the
  new pool, the objects in the order in which they are drawn, and the count of random
  calls.
\<close>

fun draw_loop ::
  "(nat \<Rightarrow> real) \<Rightarrow> real \<Rightarrow> real \<Rightarrow> nat \<Rightarrow> flake list \<Rightarrow> flake list \<times> flake list \<times> nat" where
  "draw_loop rnd w h k [] = ([], [], k)"
| "draw_loop rnd w h k (f # fs) =
     (let (slot, drawn, k') = step_flake rnd w h k f;
          (rest, painted, k'') = draw_loop rnd w h k' fs
      in (slot # rest, drawn # painted, k''))"

definition drawSnow :: "(nat \<Rightarrow> real) \<Rightarrow> snow \<Rightarrow> snow" where
  "drawSnow rnd s =
     (let (fs, painted, k) = draw_loop rnd (width s) (height s) (calls s) (flakes s)
      in s\<lparr> flakes := fs, calls := k \<rparr>)"

text \<open>The circles that one call of \<open>drawSnow\<close> paints: the objects \<open>f\<close> of the
  iterations, in order.\<close>

definition painted :: "(nat \<Rightarrow> real) \<Rightarrow> snow \<Rightarrow> flake list" where
  "painted rnd s = fst (snd (draw_loop rnd (width s) (height s) (calls s) (flakes s)))"

text \<open>
  One shard of \<open>burstIceShards\<close>: \<open>Object.assign(createFlake(true), {...})\<close>.
  \<open>createFlake(true)\<close> runs first (five calls), then the literal (five more); the
  literal's fields replace \<open>x\<close>, \<open>y\<close>, \<open>speedX\<close>, \<open>speedY\<close> and
  \<open>radius\<close>, and \<open>alpha\<close> stays.
\<close>

definition shard :: "(nat \<Rightarrow> real) \<Rightarrow> nat \<Rightarrow> real \<Rightarrow> real \<Rightarrow> flake \<times> nat" where
  "shard rnd k w h =
     (let (f, k') = createFlake rnd k w h True
      in (f\<lparr> x := w / 2 + (rnd k' - 0.5) * (w * 0.15),
              y := h / 2 + (rnd (k' + 1) - 0.5) * (h * 0.15),
              speedX := (rnd (k' + 2) - 0.5) * 3,
              speedY := 1 + rnd (k' + 3) * 3,
              radius := 1 + rnd (k' + 4) * 2 \<rparr>, k' + 5))"

fun burst_loop :: "(nat \<Rightarrow> real) \<Rightarrow> nat \<Rightarrow> snow \<Rightarrow> snow" where
  "burst_loop rnd 0 s = s"
| "burst_loop rnd (Suc n) s =
     (let (f, k) = shard rnd (calls s) (width s) (height s)
      in burst_loop rnd n (s\<lparr> flakes := flakes s @ [f], calls := k \<rparr>))"

definition burstIceShards :: "(nat \<Rightarrow> real) \<Rightarrow> snow \<Rightarrow> snow" where
  "burstIceShards rnd s = burst_loop rnd 60 s"

text \<open>The resize listener: the bounds change, the pool does not.\<close>

definition resize :: "real \<Rightarrow> real \<Rightarrow> snow \<Rightarrow> snow" where
  "resize w h s = s\<lparr> width := w, height := h \<rparr>"

text \<open>
  What happens to the particle field over the lifetime of the page: animation frames
  (\<open>drawSnow\<close>), bursts and resizes, in any order.
\<close>

datatype event = Tick | Burst | Resize real real

fun apply_event :: "(nat \<Rightarrow> real) \<Rightarrow> event \<Rightarrow> snow \<Rightarrow> snow" where
  "apply_event rnd Tick s = drawSnow rnd s"
| "apply_event rnd Burst s = burstIceShards rnd s"
| "apply_event rnd (Resize w h) s = resize w h s"

fun run_events :: "(nat \<Rightarrow> real) \<Rightarrow> event list \<Rightarrow> snow \<Rightarrow> snow" where
  "run_events rnd [] s = s"
| "run_events rnd (e # es) s = run_events rnd es (apply_event rnd e s)"

fun valid_event :: "event \<Rightarrow> bool" where
  "valid_event (Resize w h) = (0 \<le> w \<and> 0 \<le> h)"
| "valid_event _ = True"

definition unit_random :: "(nat \<Rightarrow> real) \<Rightarrow> bool" where
  "unit_random rnd = (\<forall>n. 0 \<le> rnd n \<and> rnd n < 1)"

definition in_bounds :: "real \<Rightarrow> real \<Rightarrow> flake \<Rightarrow> bool" where
  "in_bounds w h f = (- 5 \<le> x f \<and> x f \<le> w + 5 \<and> - 5 \<le> y f \<and> y f \<le> h)"

text \<open>
  What every flake of the pool keeps between frames: it is not above the line \<open>y = -5\<close>
  and it does not move upwards.
\<close>

definition falling :: "flake \<Rightarrow> bool" where
  "falling f = (- 5 \<le> y f \<and> 0 \<le> speedY f)"

definition pool_inv :: "snow \<Rightarrow> bool" where
  "pool_inv s = (0 \<le> width s \<and> 0 \<le> height s \<and> list_all falling (flakes s))"

text \<open>Two small fields, used as concrete inputs.\<close>

definition one_flake :: snow where
  "one_flake = \<lparr> width = 800, height = 600,
     flakes = [\<lparr> x = 10, y = 20, radius = 1, speedY = 1, speedX = 0, alpha = 1 \<rparr>], calls = 0 \<rparr>"

definition three_flakes :: snow where
  "three_flakes = \<lparr> width = 800, height = 600,
     flakes = [\<lparr> x = 804, y = 20, radius = 1, speedY = 1, speedX = 2, alpha = 1 / 2 \<rparr>,
               \<lparr> x = 10, y = 600, radius = 1, speedY = 1, speedX = 0, alpha = 1 \<rparr>,
               \<lparr> x = 30, y = 599, radius = 2, speedY = 2, speedX = 1, alpha = 1 \<rparr>], calls = 12 \<rparr>"

text \<open>A random source whose values all differ: the \<open>n\<close>-th call returns \<open>1 / (n + 2)\<close>.\<close>

definition harmonic :: "nat \<Rightarrow> real" where
  "harmonic n = 1 / (real n + 2)"


section \<open>The transition sequencer of script.js\<close>

text \<open>
  The page: the class lists and inline opacities of the three elements the sequencer
  touches, the particle field, a clock in milliseconds and the queue of pending
  \<open>setTimeout\<close> callbacks, each with the time at which it is due. The queue is kept in
  order of due time, and callbacks due at the same time keep their order of registration.
\<close>

datatype callback = Explode | ShowIcy | FadeOut | Restart

record page =
  overlay :: "string set"
  christmasLogo :: "string set"
  dayScreen :: "string set"
  christmasLogo_opacity :: string
  dayScreen_opacity :: string
  field :: snow
  now :: nat
  timers :: "(nat \<times> callback) list"

definition SHOW_CHRISTMAS :: nat where
  "SHOW_CHRISTMAS = 4500"

definition EXPLODE_DURATION :: nat where
  "EXPLODE_DURATION = 900"

definition SHOW_ICY :: nat where
  "SHOW_ICY = 5000"

definition LOOP_PAUSE :: nat where
  "LOOP_PAUSE = 1000"

fun enqueue :: "nat \<times> callback \<Rightarrow> (nat \<times> callback) list \<Rightarrow> (nat \<times> callback) list" where
  "enqueue t [] = [t]"
| "enqueue t (u # us) = (if fst t < fst u then t # u # us else u # enqueue t us)"

definition setTimeout :: "callback \<Rightarrow> nat \<Rightarrow> page \<Rightarrow> page" where
  "setTimeout cb ms p = p\<lparr> timers := enqueue (now p + ms, cb) (timers p) \<rparr>"

definition resetStates :: "page \<Rightarrow> page" where
  "resetStates p =
     p\<lparr> overlay := overlay p - {''exploding'', ''icy''},
        christmasLogo := christmasLogo p - {''shake'', ''breathe''},
        dayScreen := dayScreen p - {''breathe''},
        christmasLogo_opacity := ''1'',
        dayScreen_opacity := ''0'' \<rparr>"

definition startSequence :: "page \<Rightarrow> page" where
  "startSequence p =
     (let p1 = resetStates p;
          p2 = p1\<lparr> christmasLogo := insert ''breathe'' (christmasLogo p1) \<rparr>
      in setTimeout Explode SHOW_CHRISTMAS p2)"

text \<open>The bodies of the four nested timeout callbacks of \<open>startSequence\<close>.\<close>

fun fire :: "(nat \<Rightarrow> real) \<Rightarrow> callback \<Rightarrow> page \<Rightarrow> page" where
  "fire rnd Explode p =
     (let p1 = p\<lparr> christmasLogo := insert ''shake'' (christmasLogo p) \<rparr>;
          p2 = p1\<lparr> overlay := insert ''exploding'' (overlay p1) \<rparr>;
          p3 = p2\<lparr> field := burstIceShards rnd (field p2) \<rparr>
      in setTimeout ShowIcy EXPLODE_DURATION p3)"
| "fire rnd ShowIcy p =
     (let p1 = p\<lparr> christmasLogo := christmasLogo p - {''breathe''} \<rparr>;
          p2 = p1\<lparr> overlay := insert ''icy'' (overlay p1) \<rparr>;
          p3 = p2\<lparr> dayScreen := insert ''breathe'' (dayScreen p2) \<rparr>
      in setTimeout FadeOut SHOW_ICY p3)"
| "fire rnd FadeOut p =
     (let p1 = p\<lparr> dayScreen := dayScreen p - {''breathe''} \<rparr>;
          p2 = p1\<lparr> dayScreen_opacity := ''0'' \<rparr>
      in setTimeout Restart LOOP_PAUSE p2)"
| "fire rnd Restart p = startSequence p"

text \<open>
  The event loop up to time \<open>t\<close>: while the first callback of the queue is due, the
  clock moves to its due time and the callback runs. A timer is taken to fire exactly
  when it is due.
\<close>

definition pending :: "nat \<Rightarrow> (nat \<times> callback) list \<Rightarrow> nat" where
  "pending t ts = sum_list (map (\<lambda>u. Suc t - fst u) ts)"

function run_until :: "(nat \<Rightarrow> real) \<Rightarrow> nat \<Rightarrow> page \<Rightarrow> page" where
  "run_until rnd t p =
     (case timers p of
        [] \<Rightarrow> p\<lparr> now := max (now p) t \<rparr>
      | (due, cb) # rest \<Rightarrow>
          if due \<le> t then run_until rnd t (fire rnd cb (p\<lparr> now := due, timers := rest \<rparr>))
          else p\<lparr> now := max (now p) t \<rparr>)"
  by pat_completeness auto
termination
proof (relation "measure (\<lambda>(rnd, t, p). pending t (timers p))")
  show "wf (measure (\<lambda>(rnd, t, p). pending t (timers p)))" by simp
next
  fix rnd :: "nat \<Rightarrow> real" and t :: nat and p :: page and u rest due cb
  assume q: "timers p = u # rest" and u: "(due, cb) = u" and due: "due \<le> t"
  have enq: "pending t (enqueue v ts) = Suc t - fst v + pending t ts" for v ts
    by (induction ts) (simp_all add: pending_def)
  define d :: nat where
    "d = (case cb of Explode \<Rightarrow> 900 | ShowIcy \<Rightarrow> 5000 | FadeOut \<Rightarrow> 1000 | Restart \<Rightarrow> 4500)"
  define v where
    "v = (case cb of Explode \<Rightarrow> ShowIcy | ShowIcy \<Rightarrow> FadeOut | FadeOut \<Rightarrow> Restart
          | Restart \<Rightarrow> Explode)"
  have d: "0 < d"
    by (cases cb) (simp_all add: d_def)
  have f: "timers (fire rnd cb (p\<lparr> now := due, timers := rest \<rparr>)) = enqueue (due + d, v) rest"
    by (cases cb)
      (simp_all add: d_def v_def setTimeout_def startSequence_def resetStates_def Let_def
        SHOW_CHRISTMAS_def EXPLODE_DURATION_def SHOW_ICY_def LOOP_PAUSE_def)
  have "pending t (enqueue (due + d, v) rest) = Suc t - (due + d) + pending t rest"
    by (simp add: enq)
  moreover have "pending t (u # rest) = Suc t - due + pending t rest"
    by (simp add: pending_def u [symmetric])
  moreover have "Suc t - (due + d) < Suc t - due"
    using d due by simp
  ultimately have "pending t (timers (fire rnd cb (p\<lparr> now := due, timers := rest \<rparr>)))
      < pending t (u # rest)"
    by (simp add: f)
  then show "((rnd, t, fire rnd cb (p\<lparr> now := due, timers := rest \<rparr>)), (rnd, t, p))
      \<in> measure (\<lambda>(rnd, t, p). pending t (timers p))"
    by (simp add: q)
qed

text \<open>
  The states of the sequencer, read from the flags the callbacks set: the alternate
  overlay flag with or without the breathing of the second surface, the exploding
  flag, the breathing of the first surface.
\<close>

datatype seq_state = Idle | ShowingA | Exploding | ShowingB | FadingOut

definition state_of :: "page \<Rightarrow> seq_state" where
  "state_of p =
     (if ''icy'' \<in> overlay p then
        (if ''breathe'' \<in> dayScreen p then ShowingB else FadingOut)
      else if ''exploding'' \<in> overlay p then Exploding
      else if ''breathe'' \<in> christmasLogo p then ShowingA
      else Idle)"

text \<open>
  The registration at the end of script.js. \<open>register\<close> takes the two \<open>complete\<close>
  flags as they are when the script runs; \<open>started\<close> counts the calls of
  \<open>startSequence\<close> made by the registration and its listeners. \<open>on_load\<close> is the
  arrival of a \<open>load\<close> event at an image: the listener runs if one was added.
\<close>

datatype image = ChristmasLogoImg | DayScreenImg

record gate =
  loaded :: nat
  listeners :: "image list"
  started :: nat

definition register :: "bool \<Rightarrow> bool \<Rightarrow> gate" where
  "register logo_complete day_complete =
     (if logo_complete \<and> day_complete then \<lparr> loaded = 0, listeners = [], started = 1 \<rparr>
      else \<lparr> loaded = 0, listeners = [ChristmasLogoImg, DayScreenImg], started = 0 \<rparr>)"

definition on_load :: "image \<Rightarrow> gate \<Rightarrow> gate" where
  "on_load img g =
     (if img \<in> set (listeners g) then
        (let g1 = g\<lparr> loaded := loaded g + 1 \<rparr>
         in if loaded g1 = 2 then g1\<lparr> started := started g1 + 1 \<rparr> else g1)
      else g)"

text \<open>
  An image fires \<open>load\<close> once, when it finishes loading. So the events that arrive
  after the registration are those of the images that were not complete then.
\<close>

definition later_loads :: "bool \<Rightarrow> bool \<Rightarrow> image list" where
  "later_loads logo_complete day_complete =
     (if logo_complete then [] else [ChristmasLogoImg]) @
     (if day_complete then [] else [DayScreenImg])"

definition starts_after :: "bool \<Rightarrow> bool \<Rightarrow> image list \<Rightarrow> nat" where
  "starts_after logo_complete day_complete loads =
     started (fold on_load loads (register logo_complete day_complete))"

text \<open>A page at load time, used as a concrete input.\<close>

definition blank_page :: page where
  "blank_page = \<lparr> overlay = {}, christmasLogo = {}, dayScreen = {},
     christmasLogo_opacity = '''', dayScreen_opacity = '''',
     field = one_flake, now = 0, timers = [] \<rparr>"


section \<open>The scene and the timeline of main.js\<close>

subsection \<open>Objects, properties and the scene graph\<close>

text \<open>
  The mutable numbers of main.js are the components of the position, scale and
  rotation of the groups and planes, the opacity of the material of each plane, the
  object \<open>camState\<close> and the position of the rendering camera. A store gives each
  of them its value.
\<close>

datatype axis = Ax | Ay | Az

datatype object =
    FullGroup | HeartGroup | TextGroup | AddonGroup | GlowGroup
  | BigHeartPlane | TextPlane | SmallHeartPlane | GlowPlane

datatype property =
    Position object axis
  | Scale object axis
  | Rotation object axis
  | Opacity object
  | CamState axis
  | CameraPosition axis

type_synonym store = "property \<Rightarrow> real"

text \<open>
  The scene graph as built by the \<open>add\<close> calls: each node has its name, whether it is
  a mesh (the planes made by \<open>makeBillboard\<close>, each with its own material) and its
  children in order.
\<close>

datatype object3d = Object3D object bool "object3d list"

definition bigHeartPlane :: object3d where
  "bigHeartPlane = Object3D BigHeartPlane True []"

definition textPlane :: object3d where
  "textPlane = Object3D TextPlane True []"

definition smallHeartPlane :: object3d where
  "smallHeartPlane = Object3D SmallHeartPlane True []"

definition glowPlane :: object3d where
  "glowPlane = Object3D GlowPlane True []"

definition heartGroup :: object3d where
  "heartGroup = Object3D HeartGroup False [bigHeartPlane]"

definition textGroup :: object3d where
  "textGroup = Object3D TextGroup False [textPlane]"

definition addonGroup :: object3d where
  "addonGroup = Object3D AddonGroup False [textGroup, smallHeartPlane]"

definition glowGroup :: object3d where
  "glowGroup = Object3D GlowGroup False [glowPlane]"

definition fullGroup :: object3d where
  "fullGroup = Object3D FullGroup False [heartGroup, addonGroup, glowGroup]"

text \<open>\<open>traverse\<close> visits the object and then all its descendants.\<close>

fun traverse :: "object3d \<Rightarrow> object3d list" where
  "traverse (Object3D n m cs) = Object3D n m cs # concat (map traverse cs)"

fun set_mesh_opacity :: "real \<Rightarrow> object3d \<Rightarrow> store \<Rightarrow> store" where
  "set_mesh_opacity v (Object3D n m cs) s = (if m then s(Opacity n := v) else s)"

definition setOpacity :: "object3d \<Rightarrow> real \<Rightarrow> store \<Rightarrow> store" where
  "setOpacity obj v s = fold (set_mesh_opacity v) (traverse obj) s"

text \<open>\<open>v.set(a, b, c)\<close> on a vector whose components are \<open>f Ax\<close>, \<open>f Ay\<close>, \<open>f Az\<close>.\<close>

definition set3 :: "(axis \<Rightarrow> property) \<Rightarrow> real \<Rightarrow> real \<Rightarrow> real \<Rightarrow> store \<Rightarrow> store" where
  "set3 f a b c s = s(f Ax := a, f Ay := b, f Az := c)"

subsection \<open>The state before the loop starts\<close>

text \<open>
  A new object of the 3D library has position 0, scale 1 and rotation 0, and a new
  material has opacity 1. The scale that the texture callback of \<open>makeBillboard\<close>
  gives to a plane when its image arrives is not modelled: no phase and no claim
  touches the scale of a plane.
\<close>

fun fresh :: store where
  "fresh (Position _ _) = 0"
| "fresh (Scale _ _) = 1"
| "fresh (Rotation _ _) = 0"
| "fresh (Opacity _) = 1"
| "fresh (CamState _) = 0"
| "fresh (CameraPosition _) = 0"

text \<open>Lines 23--24 and 124--127: \<open>camState\<close>, the camera and the z stacking.\<close>

definition build_scene :: "store \<Rightarrow> store" where
  "build_scene s0 =
     (let s1 = set3 CamState 0 0.3 4 s0;
          s2 = set3 CameraPosition (s1 (CamState Ax)) (s1 (CamState Ay)) (s1 (CamState Az)) s1;
          s3 = set3 (Position BigHeartPlane) 0 0 0.00 s2;
          s4 = set3 (Position TextGroup) 0 0 0.01 s3;
          s5 = set3 (Position SmallHeartPlane) 0 0 0.02 s4
      in set3 (Position GlowGroup) 0 0 (- 0.05) s5)"

text \<open>Lines 141--172: the block INITIAL STATE.\<close>

definition initial_state :: "store \<Rightarrow> store" where
  "initial_state s0 =
     (let s1 = set3 (Scale HeartGroup) 0.8 0.8 0.8 s0;
          s2 = setOpacity heartGroup 0 s1;
          s3 = set3 (Scale TextGroup) 0.5 0.5 0.5 s2;
          s4 = setOpacity textGroup 0 s3;
          s5 = set3 (Scale SmallHeartPlane) 1 1 1 s4;
          s6 = set3 (Position SmallHeartPlane) 2.5 2.5 0.02 s5;
          s7 = setOpacity smallHeartPlane 0 s6;
          s8 = set3 (Position AddonGroup) 0 0 0 s7;
          s9 = set3 (Scale AddonGroup) 1 1 1 s8;
          s10 = setOpacity addonGroup 1 s9;
          s11 = set3 (Scale GlowGroup) 0.6 0.6 0.6 s10;
          s12 = setOpacity glowGroup 0 s11;
          s13 = set3 (Rotation FullGroup) 0 0 0 s12;
          s14 = set3 (Scale FullGroup) 1 1 1 s13;
          s15 = set3 CamState 0 0.3 4 s14
      in set3 CameraPosition (s15 (CamState Ax)) (s15 (CamState Ay)) (s15 (CamState Az)) s15)"

definition phase0 :: store where
  "phase0 = initial_state (build_scene fresh)"

subsection \<open>The callbacks of the timeline\<close>

text \<open>Line 304: \<open>onComplete\<close> of the hero spin.\<close>

definition spin_complete :: "store \<Rightarrow> store" where
  "spin_complete s = s(Rotation FullGroup Ay := 0)"

text \<open>Lines 409--412: \<open>onStart\<close> of the hold phase.\<close>

definition hold_start :: "store \<Rightarrow> store" where
  "hold_start s = setOpacity heartGroup 1 (set3 (Scale HeartGroup) 1 1 1 s)"

text \<open>Lines 422--456: \<open>onStart\<close> of the reset phase.\<close>

definition reset_start :: "store \<Rightarrow> store" where
  "reset_start s0 =
     (let s1 = set3 (Scale HeartGroup) 0.8 0.8 0.8 s0;
          s2 = setOpacity heartGroup 0 s1;
          s3 = set3 (Scale TextGroup) 0.5 0.5 0.5 s2;
          s4 = set3 (Rotation TextGroup) 0 0 0 s3;
          s5 = setOpacity textGroup 0 s4;
          s6 = set3 (Position SmallHeartPlane) 2.5 2.5 0.02 s5;
          s7 = set3 (Rotation SmallHeartPlane) 0 0 0 s6;
          s8 = setOpacity smallHeartPlane 0 s7;
          s9 = set3 (Position AddonGroup) 0 0 0 s8;
          s10 = set3 (Scale AddonGroup) 1 1 1 s9;
          s11 = set3 (Rotation AddonGroup) 0 0 0 s10;
          s12 = setOpacity addonGroup 1 s11;
          s13 = set3 (Scale GlowGroup) 0.6 0.6 0.6 s12;
          s14 = set3 (Position GlowGroup) 0 0 (- 0.05) s13;
          s15 = setOpacity glowGroup 0 s14;
          s16 = set3 (Rotation FullGroup) 0 0 0 s15;
          s17 = set3 (Scale FullGroup) 1 1 1 s16;
          s18 = s17(CamState Ax := 0);
          s19 = s18(CamState Ay := 0.3)
      in s19(CamState Az := 4))"

subsection \<open>The tweens\<close>

text \<open>
  One call \<open>tl.to(target, vars, position)\<close>: the properties of the target named in
  \<open>vars\<close> with their end values (none for the target \<open>{}\<close>), the position on the
  timeline, the duration, the ease, and the three callbacks (the identity when the
  call gives none).
\<close>

datatype ease =
    Linear | Power1Out | Power1InOut | Power2In | Power2Out | Power2InOut | BackOut real

record tween =
  target :: "(property \<times> real) list"
  position :: real
  duration :: real
  ease :: ease
  onStart :: "store \<Rightarrow> store"
  onUpdate :: "store \<Rightarrow> store"
  onComplete :: "store \<Rightarrow> store"

definition to :: "(property \<times> real) list \<Rightarrow> real \<Rightarrow> ease \<Rightarrow> real \<Rightarrow> tween" where
  "to vars d e pos =
     \<lparr> target = vars, position = pos, duration = d, ease = e,
        onStart = id, onUpdate = id, onComplete = id \<rparr>"

definition xyz :: "(axis \<Rightarrow> property) \<Rightarrow> real \<Rightarrow> real \<Rightarrow> real \<Rightarrow> (property \<times> real) list" where
  "xyz f a b c = [(f Ax, a), (f Ay, b), (f Az, c)]"

text \<open>
  The calls of lines 188--457 in their order. A tween without an ease gets the default
  \<open>power2.out\<close> of the timeline. The end values written as
  \<open>current + constant\<close> are computed when the script runs, from the store \<open>s0\<close>
  of that moment.
\<close>

definition timeline :: "store \<Rightarrow> tween list" where
  "timeline s0 =
   [ to (xyz (Scale HeartGroup) 1 1 1) 0.6 (BackOut 1.6) 0,
     (to [] 0.6 Power2Out 0) \<lparr> onUpdate := setOpacity heartGroup 1 \<rparr>,
     to (xyz CamState 0 0.25 3.6) 0.6 Power2Out 0,

     to (xyz (Scale TextGroup) 1 1 1) 0.5 (BackOut 1.4) 0.6,
     (to [] 0.5 Power2Out 0.6) \<lparr> onStart := setOpacity textGroup 1 \<rparr>,
     to (xyz CamState (- 0.2) 0.25 3.55) 0.5 Power1Out 0.6,

     to (xyz (Position SmallHeartPlane) 0 0 0.02) 0.7 Power2Out 1.1,
     to (xyz (Scale AddonGroup) 1 1 1) 0.7 (BackOut 1.4) 1.1,
     (to [] 0.7 Power2Out 1.1) \<lparr> onStart := setOpacity smallHeartPlane 1 \<rparr>,
     to (xyz CamState 0 0.4 3.4) 0.7 Power2Out 1.1,
     to [(Rotation SmallHeartPlane Az, s0 (Rotation SmallHeartPlane Az) + pi * 2 * 4)] 3 Linear 1.1,

     to (xyz (Scale GlowGroup) 1 1 1) 0.4 Power2Out 1.8,
     (to [] 0.4 Power2Out 1.8) \<lparr> onStart := setOpacity glowGroup 0.6 \<rparr>,

     (to [(Rotation FullGroup Ay, s0 (Rotation FullGroup Ay) + pi * 2)] 2.5 Power2InOut 1.8)
       \<lparr> onComplete := spin_complete \<rparr>,
     to (xyz (Scale FullGroup) 1.15 1.15 1.15) 1.0 Power2Out 1.8,
     to (xyz (Scale FullGroup) 1.0 1.0 1.0) 1.5 Power2InOut 2.8,
     to [(CamState Ay, 0.5), (CamState Az, 3.8)] 2.5 Power1InOut 1.8,

     to (xyz (Position AddonGroup) 1.5 1.5 0.5) 0.6 Power2In 5.0,
     to (xyz (Scale AddonGroup) 0.4 0.4 0.4) 0.6 Power2In 5.0,
     to [(Rotation AddonGroup Az, s0 (Rotation AddonGroup Az) + pi / 4),
         (Rotation AddonGroup Ay, s0 (Rotation AddonGroup Ay) + pi)] 0.6 Power2In 5.0,
     (to [] 0.6 Power2Out 5.0) \<lparr> onUpdate := setOpacity addonGroup 0 \<rparr>,
     to (xyz (Scale GlowGroup) 1.2 1.2 1.2) 0.6 Power2In 5.0,
     (to [] 0.6 Power2Out 5.0) \<lparr> onStart := setOpacity glowGroup 0.0 \<rparr>,
     to (xyz CamState 0.2 0.45 4.0) 0.6 Power2InOut 5.0,

     to (xyz CamState 0 0.3 4.0) 1.0 Power2Out 5.6,
     (to [] 1.0 Power2Out 5.6) \<lparr> onStart := hold_start \<rparr>,

     (to [] 0.2 Power2Out 6.6) \<lparr> onStart := reset_start \<rparr> ]"

text \<open>Lines 460--468: one frame of \<open>animate\<close>. The result is the store and the camera
  position that \<open>renderer.render\<close> paints with.\<close>

definition animate :: "store \<Rightarrow> store \<times> (real \<times> real \<times> real)" where
  "animate s =
     (let s1 = set3 CameraPosition (s (CamState Ax)) (s (CamState Ay)) (s (CamState Az)) s
      in (s1, (s1 (CameraPosition Ax), s1 (CameraPosition Ay), s1 (CameraPosition Az))))"


subsection \<open>The tween engine\<close>

text \<open>
  The tween engine is the library gsap, which main.js calls through \<open>gsap.timeline\<close>
  and \<open>tl.to\<close>; it is not part of the repository. The model keeps what the calls
  of main.js rely on:
  \<^item> a timeline holds its tweens in the order of their positions, and tweens at the same
    position in the order of their calls;
  \<^item> at clock value \<open>t\<close> the local time of a tween is \<open>t - position\<close>, kept
    between 0 and the duration; a tween whose local time has not moved is left alone,
    except at the very instant at which it begins (\<open>t = position\<close>), where the
    engine renders it at local time 0;
  \<^item> the start value of each target property is its current value when the tween is
    first rendered, and it is kept from then on (also over the repeats of the timeline);
  \<^item> the property becomes \<open>start + (end - start) * e\<close>, where \<open>e\<close> is the ease of
    \<open>local time / duration\<close>;
  \<^item> \<open>onStart\<close> runs when the tween leaves local time 0, \<open>onUpdate\<close> at each
    rendering (also the one at local time 0), \<open>onComplete\<close> when the local time
    reaches the duration; with events suppressed no callback runs;
  \<^item> the tweens are rendered in order when the clock moves forward and in reverse order
    when it moves back;
  \<^item> a timeline that repeats is rendered at its end, then moved back to just before its
    beginning with events suppressed, then rendered at the time that remains; a frame
    that lands exactly on the end of the loop stays there.
  The rounding that the engine applies to the values it writes and the deferred
  (lazy) first writing of a tween within a frame are not modelled.
\<close>

text \<open>
  The timeline as the engine holds it: the tweens in the order of their positions, those
  with the same position in the order of their calls. The script runs in the Phase-0
  state. The hero spin (line 300) is entry 13, counting from 0.
\<close>

definition master_tl :: "tween list" where
  "master_tl = sort_key position (timeline phase0)"

definition hero :: nat where
  "hero = 13"

text \<open>The eases that main.js names, as the engine defines them.\<close>

fun ease_fn :: "ease \<Rightarrow> real \<Rightarrow> real" where
  "ease_fn Linear p = p"
| "ease_fn Power1Out p = 1 - (1 - p) ^ 2"
| "ease_fn Power1InOut p = (if p < 0.5 then (p * 2) ^ 2 / 2 else 1 - ((1 - p) * 2) ^ 2 / 2)"
| "ease_fn Power2In p = p ^ 3"
| "ease_fn Power2Out p = 1 - (1 - p) ^ 3"
| "ease_fn Power2InOut p = (if p < 0.5 then (p * 2) ^ 3 / 2 else 1 - ((1 - p) * 2) ^ 3 / 2)"
| "ease_fn (BackOut overshoot) p =
     (if p = 0 then 0 else (p - 1) * (p - 1) * ((overshoot + 1) * (p - 1) + overshoot) + 1)"

text \<open>What the engine remembers of a tween: its local time and the start values it
  recorded at its first run.\<close>

record tween_rt =
  rt_time :: real
  rt_from :: "real list option"

record player =
  store :: store
  rts :: "nat \<Rightarrow> tween_rt"
  playhead :: real

definition local_time :: "tween \<Rightarrow> real \<Rightarrow> real" where
  "local_time tw t = max 0 (min (duration tw) (t - position tw))"

fun write_props :: "real \<Rightarrow> ((property \<times> real) \<times> real) list \<Rightarrow> store \<Rightarrow> store" where
  "write_props e [] s = s"
| "write_props e (((p, v1), v0) # rest) s = write_props e rest (s(p := v0 + (v1 - v0) * e))"

definition render_tween :: "bool \<Rightarrow> real \<Rightarrow> tween \<Rightarrow> tween_rt \<Rightarrow> store \<Rightarrow> store \<times> tween_rt" where
  "render_tween events t tw r s =
     (let time = local_time tw t in
      if time = rt_time r \<and> t \<noteq> position tw then (s, r)
      else
        (let from = (case rt_from r of Some vs \<Rightarrow> vs | None \<Rightarrow> map (\<lambda>(p, v1). s p) (target tw));
             s1 = (if events \<and> rt_time r = 0 \<and> time \<noteq> 0 then onStart tw s else s);
             e = ease_fn (ease tw) (time / duration tw);
             s2 = write_props e (zip (target tw) from) s1;
             s3 = (if events then onUpdate tw s2 else s2);
             s4 = (if events \<and> time = duration tw then onComplete tw s3 else s3)
         in (s4, \<lparr> rt_time = time, rt_from = Some from \<rparr>)))"

text \<open>The tweens of a timeline are rendered in their order when the clock moves
  forward and in the reverse order when it moves back; \<open>i\<close> is the index of the
  first tween of the list.\<close>

fun render_forward :: "bool \<Rightarrow> real \<Rightarrow> nat \<Rightarrow> tween list \<Rightarrow> store \<times> (nat \<Rightarrow> tween_rt) \<Rightarrow> store \<times> (nat \<Rightarrow> tween_rt)" where
  "render_forward events t i [] sr = sr"
| "render_forward events t i (tw # tws) (s, rt) =
     (let (s', r') = render_tween events t tw (rt i) s
      in render_forward events t (Suc i) tws (s', rt(i := r')))"

fun render_backward :: "bool \<Rightarrow> real \<Rightarrow> nat \<Rightarrow> tween list \<Rightarrow> store \<times> (nat \<Rightarrow> tween_rt) \<Rightarrow> store \<times> (nat \<Rightarrow> tween_rt)" where
  "render_backward events t i [] sr = sr"
| "render_backward events t i (tw # tws) sr =
     (let (s, rt) = render_backward events t (Suc i) tws sr;
          (s', r') = render_tween events t tw (rt i) s
      in (s', rt(i := r')))"

text \<open>Evaluating the timeline of main.js at clock value \<open>t\<close>.\<close>

definition seek :: "bool \<Rightarrow> real \<Rightarrow> player \<Rightarrow> player" where
  "seek events t pl =
     (let (s, rt) = (if t < playhead pl then render_backward events t 0 master_tl (store pl, rts pl)
                     else render_forward events t 0 master_tl (store pl, rts pl))
      in \<lparr> store = s, rts = rt, playhead = t \<rparr>)"

definition initial_player :: player where
  "initial_player = \<lparr> store = phase0, rts = (\<lambda>i. \<lparr> rt_time = 0, rt_from = None \<rparr>), playhead = 0 \<rparr>"

text \<open>The length of the loop: the latest end of a tween.\<close>

definition loop_length :: real where
  "loop_length = fold (\<lambda>tw m. max m (position tw + duration tw)) master_tl 0"

text \<open>
  Moving the timeline back to just before its beginning, as the engine does between two
  iterations: the clock value is \<open>-0.0001\<close> and events are suppressed.
\<close>

definition rewind :: "player \<Rightarrow> player" where
  "rewind pl = seek False (- 1 / 10000) pl"

text \<open>
  One frame of playback with \<open>repeat: -1\<close> and no delay: the clock advances by
  \<open>dt\<close>; a frame in which the clock does not move renders nothing. When the clock
  passes the end of the loop, the timeline is first rendered at its end, then rewound,
  then rendered at the time that remains, which is in \<open>(0, loop_length]\<close>.
\<close>

definition play :: "real \<Rightarrow> player \<Rightarrow> player" where
  "play dt pl =
     (if dt = 0 then pl
      else
        (let t = playhead pl + dt in
         if t \<le> loop_length then seek True t pl
         else
           (let pl1 = seek True loop_length pl;
                pl2 = rewind pl1;
                t' = t - loop_length * of_int (\<lceil>t / loop_length\<rceil> - 1)
            in seek True t' pl2)))"

text \<open>
  The pose that belongs to a clock value: the Phase-0 state at 0, and otherwise what one
  evaluation at that clock value makes of the Phase-0 state.
\<close>

definition advance :: "real \<Rightarrow> store" where
  "advance t = (if t = 0 then phase0 else store (seek True t initial_player))"

text \<open>
  The player at the end of the first iteration of the loop, and rewound for the second.
\<close>

definition first_end :: player where
  "first_end = seek True loop_length initial_player"

definition next_start :: player where
  "next_start = rewind first_end"

text \<open>
  A player is on track when it is the initial one, or its clock is in
  \<open>(0, loop_length]\<close> and it is what one evaluation at that clock value makes of the
  initial player or of the rewound one.
\<close>

definition on_track :: "player \<Rightarrow> bool" where
  "on_track pl =
     (pl = initial_player \<or>
      0 < playhead pl \<and> playhead pl \<le> loop_length \<and>
      (pl = seek True (playhead pl) initial_player \<or> pl = seek True (playhead pl) next_start))"

text \<open>The properties that the phases write and the reset phase restores.\<close>

definition vec :: "(axis \<Rightarrow> property) \<Rightarrow> property list" where
  "vec f = [f Ax, f Ay, f Az]"

definition mutable_props :: "property list" where
  "mutable_props =
     vec (Scale HeartGroup) @ [Opacity BigHeartPlane] @
     vec (Scale TextGroup) @ vec (Rotation TextGroup) @ [Opacity TextPlane] @
     vec (Position SmallHeartPlane) @ vec (Rotation SmallHeartPlane) @ [Opacity SmallHeartPlane] @
     vec (Position AddonGroup) @ vec (Scale AddonGroup) @ vec (Rotation AddonGroup) @
     vec (Scale GlowGroup) @ vec (Position GlowGroup) @ [Opacity GlowPlane] @
     vec (Rotation FullGroup) @ vec (Scale FullGroup) @
     vec CamState"

text \<open>A tween keeps a property when it does not target it and none of its callbacks
  changes it.\<close>

definition keeps :: "property \<Rightarrow> tween \<Rightarrow> bool" where
  "keeps q tw =
     (q \<notin> fst ` set (target tw) \<and> (\<forall>s. onStart tw s q = s q) \<and>
      (\<forall>s. onUpdate tw s q = s q) \<and> (\<forall>s. onComplete tw s q = s q))"

text \<open>The hero spin, by its place in the timeline.\<close>

definition hero_tw :: tween where
  "hero_tw = master_tl ! hero"

text \<open>
  A tween is calm when it does not target the rotation of the full group about the
  vertical axis and each of its callbacks leaves that rotation or sets it to 0.
\<close>

definition calm :: "tween \<Rightarrow> bool" where
  "calm tw =
     (Rotation FullGroup Ay \<notin> fst ` set (target tw) \<and>
      (\<forall>s. onStart tw s (Rotation FullGroup Ay) = s (Rotation FullGroup Ay) \<or>
           onStart tw s (Rotation FullGroup Ay) = 0) \<and>
      (\<forall>s. onUpdate tw s (Rotation FullGroup Ay) = s (Rotation FullGroup Ay) \<or>
           onUpdate tw s (Rotation FullGroup Ay) = 0) \<and>
      (\<forall>s. onComplete tw s (Rotation FullGroup Ay) = s (Rotation FullGroup Ay) \<or>
           onComplete tw s (Rotation FullGroup Ay) = 0))"

text \<open>
  What holds of the rotation \<open>v\<close> of the full group about the vertical axis and of
  the engine's record \<open>r\<close> of the hero spin: the rotation is between 0 and a
  full turn, it is 0 while the spin is at its beginning or at its end, and the start
  value recorded for the spin is 0.
\<close>

definition spin_inv :: "real \<Rightarrow> tween_rt \<Rightarrow> bool" where
  "spin_inv v r =
     (0 \<le> v \<and> v \<le> 2 * pi \<and>
      (rt_time r = 0 \<or> rt_time r = 2.5 \<longrightarrow> v = 0) \<and>
      (case rt_from r of None \<Rightarrow> rt_time r = 0 | Some vs \<Rightarrow> vs = [0]))"

definition spin_ok :: "player \<Rightarrow> bool" where
  "spin_ok pl =
     (spin_inv (store pl (Rotation FullGroup Ay)) (rts pl 13) \<and>
      rt_time (rts pl 13) = local_time hero_tw (playhead pl))"

text \<open>
  A function on stores is local on a set of properties when it changes no property
  outside the set and what it writes inside the set depends only on the values inside.
\<close>

definition local_on :: "property set \<Rightarrow> (store \<Rightarrow> store) \<Rightarrow> bool" where
  "local_on W f =
     ((\<forall>s p. p \<notin> W \<longrightarrow> f s p = s p) \<and>
      (\<forall>s s'. (\<forall>p \<in> W. s p = s' p) \<longrightarrow> (\<forall>p \<in> W. f s p = f s' p)))"

text \<open>
  A tween fits a set of properties when it lasts, its targets are in the set, its
  callbacks are local on the set, a tween with targets has no start and no update
  callback, no tween has both, and running the update callback twice is the same as
  running it once.
\<close>

definition fits :: "property set \<Rightarrow> tween \<Rightarrow> bool" where
  "fits W tw =
     (0 < duration tw \<and> fst ` set (target tw) \<subseteq> W \<and>
      local_on W (onStart tw) \<and> local_on W (onUpdate tw) \<and> local_on W (onComplete tw) \<and>
      (target tw = [] \<or> onStart tw = id \<and> onUpdate tw = id) \<and>
      (onStart tw = id \<or> onUpdate tw = id) \<and>
      (\<forall>s. onUpdate tw (onUpdate tw s) = onUpdate tw s))"

text \<open>Rendering the tween at index \<open>i\<close> of a timeline.\<close>

definition render_at ::
  "bool \<Rightarrow> real \<Rightarrow> nat \<Rightarrow> tween \<Rightarrow> store \<times> (nat \<Rightarrow> tween_rt) \<Rightarrow> store \<times> (nat \<Rightarrow> tween_rt)" where
  "render_at ev t i tw sr =
     (let (s', r') = render_tween ev t tw (snd sr i) (fst sr) in (s', (snd sr)(i := r')))"

text \<open>
  A list of tweens with the properties each may write is scheduled when every tween
  fits its set and, of two tweens that may write a common property, the earlier in the
  list has ended when the later begins.
\<close>

fun scheduled :: "(tween \<times> property list) list \<Rightarrow> bool" where
  "scheduled [] = True"
| "scheduled ((a, A) # rest) =
     (fits (set A) a \<and>
      list_all (\<lambda>(b, B). set A \<inter> set B = {} \<or> position a + duration a \<le> position b) rest \<and>
      scheduled rest)"

text \<open>
  The properties that each call of the timeline may write, call by call in the order
  of lines 188--457: the targets of the tween and what its callbacks assign.
\<close>

definition footprints :: "property list list" where
  "footprints =
   [ vec (Scale HeartGroup), [Opacity BigHeartPlane], vec CamState,
     vec (Scale TextGroup), [Opacity TextPlane], vec CamState,
     vec (Position SmallHeartPlane), vec (Scale AddonGroup), [Opacity SmallHeartPlane],
     vec CamState, [Rotation SmallHeartPlane Az],
     vec (Scale GlowGroup), [Opacity GlowPlane],
     [Rotation FullGroup Ay], vec (Scale FullGroup), vec (Scale FullGroup),
     [CamState Ay, CamState Az],
     vec (Position AddonGroup), vec (Scale AddonGroup),
     [Rotation AddonGroup Az, Rotation AddonGroup Ay],
     [Opacity TextPlane, Opacity SmallHeartPlane], vec (Scale GlowGroup), [Opacity GlowPlane],
     vec CamState,
     vec CamState, vec (Scale HeartGroup) @ [Opacity BigHeartPlane],
     mutable_props ]"

definition master_fp :: "(tween \<times> property list) list" where
  "master_fp = sort_key (\<lambda>u. position (fst u)) (zip (timeline phase0) footprints)"


section \<open>Proofs about the particle field\<close>

lemma createFlake_calls: "snd (createFlake rnd k w h b) = (if b then k + 5 else k + 6)"
  by (simp add: createFlake_def)

lemma fill_width [simp]: "width (fill rnd n s) = width s"
  by (induction n arbitrary: s) (simp_all add: split_beta Let_def)

lemma fill_height [simp]: "height (fill rnd n s) = height s"
  by (induction n arbitrary: s) (simp_all add: split_beta Let_def)

lemma fill_length: "length (flakes (fill rnd n s)) = length (flakes s) + n"
  by (induction n arbitrary: s) (simp_all add: split_beta Let_def)

lemma burst_loop_width [simp]: "width (burst_loop rnd n s) = width s"
  by (induction n arbitrary: s) (simp_all add: split_beta Let_def)

lemma burst_loop_height [simp]: "height (burst_loop rnd n s) = height s"
  by (induction n arbitrary: s) (simp_all add: split_beta Let_def)

lemma burst_loop_length: "length (flakes (burst_loop rnd n s)) = length (flakes s) + n"
  by (induction n arbitrary: s) (simp_all add: split_beta Let_def)

lemma burst_loop_flakes:
  "\<exists>new. flakes (burst_loop rnd n s) = flakes s @ new \<and> length new = n \<and>
     (\<forall>f \<in> set new. \<exists>k. f = fst (shard rnd k (width s) (height s)))"
proof (induction n arbitrary: s)
  case 0
  then show ?case by simp
next
  case (Suc n)
  obtain f k where fk: "shard rnd (calls s) (width s) (height s) = (f, k)"
    by (cases "shard rnd (calls s) (width s) (height s)")
  let ?s = "s\<lparr> flakes := flakes s @ [f], calls := k \<rparr>"
  from Suc.IH [of ?s] obtain new where
    new: "flakes (burst_loop rnd n ?s) = flakes ?s @ new" "length new = n"
      "\<forall>g \<in> set new. \<exists>j. g = fst (shard rnd j (width ?s) (height ?s))"
    by blast
  have f: "\<exists>j. f = fst (shard rnd j (width s) (height s))"
    by (rule exI [of _ "calls s"]) (simp add: fk)
  have "flakes (burst_loop rnd (Suc n) s) = flakes s @ (f # new)"
    using new(1) by (simp add: fk)
  moreover have "length (f # new) = Suc n"
    using new(2) by simp
  moreover have "\<forall>g \<in> set (f # new). \<exists>j. g = fst (shard rnd j (width s) (height s))"
    using new(3) f by simp
  ultimately have "flakes (burst_loop rnd (Suc n) s) = flakes s @ (f # new) \<and>
      length (f # new) = Suc n \<and>
      (\<forall>g \<in> set (f # new). \<exists>j. g = fst (shard rnd j (width s) (height s)))"
    by blast
  then show ?case by blast
qed

lemma draw_loop_length: "length (fst (draw_loop rnd w h k fs)) = length fs"
  by (induction fs arbitrary: k) (simp_all add: split_beta Let_def)

lemma draw_loop_nth:
  "i < length fs \<Longrightarrow> \<exists>j. fst (draw_loop rnd w h k fs) ! i = fst (step_flake rnd w h j (fs ! i))"
proof (induction fs arbitrary: k i)
  case Nil
  then show ?case by simp
next
  case (Cons f fs)
  show ?case
  proof (cases i)
    case 0
    then show ?thesis by (auto simp: split_beta Let_def)
  next
    case (Suc n)
    with Cons.prems have "n < length fs" by simp
    from Cons.IH [OF this] show ?thesis
      using Suc by (simp add: split_beta Let_def)
  qed
qed

lemma drawSnow_length: "length (flakes (drawSnow rnd s)) = length (flakes s)"
  by (simp add: drawSnow_def split_beta draw_loop_length)

lemma drawSnow_width [simp]: "width (drawSnow rnd s) = width s"
  by (simp add: drawSnow_def split_beta)

lemma drawSnow_height [simp]: "height (drawSnow rnd s) = height s"
  by (simp add: drawSnow_def split_beta)

lemma draw_loop_painted:
  "i < length fs \<Longrightarrow>
   fst (snd (draw_loop rnd w h k fs)) ! i = wrap_x w (move_flake (fs ! i))"
proof (induction fs arbitrary: k i)
  case Nil
  then show ?case by simp
next
  case (Cons f fs)
  show ?case
  proof (cases i)
    case 0
    then show ?thesis by (simp add: split_beta Let_def step_flake_def)
  next
    case (Suc n)
    with Cons.prems have "n < length fs" by simp
    from Cons.IH [OF this] show ?thesis
      using Suc by (simp add: split_beta Let_def)
  qed
qed

lemma drawSnow_nth:
  "i < length (flakes s) \<Longrightarrow>
   \<exists>j. flakes (drawSnow rnd s) ! i = fst (step_flake rnd (width s) (height s) j (flakes s ! i))"
  using draw_loop_nth [of i "flakes s" rnd "width s" "height s" "calls s"]
  by (simp add: drawSnow_def split_beta)

lemma window:
  assumes "0 \<le> r" "r < 1" "0 \<le> (w::real)"
  shows "\<bar>w / 2 + (r - 0.5) * (w * 0.15) - w / 2\<bar> \<le> w * 0.075"
proof -
  have "\<bar>(r - 0.5) * (w * 0.15)\<bar> = \<bar>r - 0.5\<bar> * (w * 0.15)"
    using assms(3) by (simp add: abs_mult)
  also have "\<dots> \<le> 0.5 * (w * 0.15)"
  proof (rule mult_right_mono)
    show "\<bar>r - 0.5\<bar> \<le> 0.5" using assms(1,2) by linarith
    show "0 \<le> w * 0.15" using assms(3) by simp
  qed
  finally show ?thesis by simp
qed

lemma shard_x: "\<exists>n. x (fst (shard rnd k w h)) = w / 2 + (rnd n - 0.5) * (w * 0.15)"
  by (rule exI [of _ "k + 5"]) (simp add: shard_def createFlake_def)

lemma shard_y: "\<exists>n. y (fst (shard rnd k w h)) = h / 2 + (rnd n - 0.5) * (h * 0.15)"
  by (rule exI [of _ "k + 6"]) (simp add: shard_def createFlake_def add.commute)

lemma shard_window:
  assumes "unit_random rnd" "0 \<le> w" "0 \<le> h"
  shows "\<bar>x (fst (shard rnd k w h)) - w / 2\<bar> \<le> w * 0.075"
    and "\<bar>y (fst (shard rnd k w h)) - h / 2\<bar> \<le> h * 0.075"
proof -
  have r: "0 \<le> rnd n" "rnd n < 1" for n
    using assms(1) by (simp_all add: unit_random_def)
  obtain n where "x (fst (shard rnd k w h)) = w / 2 + (rnd n - 0.5) * (w * 0.15)"
    using shard_x by blast
  then show "\<bar>x (fst (shard rnd k w h)) - w / 2\<bar> \<le> w * 0.075"
    using window [OF r assms(2), of n] by simp
  obtain m where "y (fst (shard rnd k w h)) = h / 2 + (rnd m - 0.5) * (h * 0.15)"
    using shard_y by blast
  then show "\<bar>y (fst (shard rnd k w h)) - h / 2\<bar> \<le> h * 0.075"
    using window [OF r assms(3), of m] by simp
qed

text \<open>
  Claim C5. One call of \<open>burstIceShards\<close> makes the pool exactly 60 flakes longer,
  the flakes that were there stay as they were, and each of the 60 new flakes has its
  \<open>x\<close> within \<open>width / 2 \<plusminus> width * 0.075\<close> and its \<open>y\<close> within
  \<open>height / 2 \<plusminus> height * 0.075\<close>.
\<close>

theorem burst_adds_sixty_in_window:
  assumes "unit_random rnd" and "0 \<le> width s" and "0 \<le> height s"
  shows "length (flakes (burstIceShards rnd s)) = length (flakes s) + 60 \<and>
         take (length (flakes s)) (flakes (burstIceShards rnd s)) = flakes s \<and>
         (\<forall>f \<in> set (drop (length (flakes s)) (flakes (burstIceShards rnd s))).
            \<bar>x f - width s / 2\<bar> \<le> width s * 0.075 \<and>
            \<bar>y f - height s / 2\<bar> \<le> height s * 0.075)"
proof -
  obtain new where new: "flakes (burst_loop rnd 60 s) = flakes s @ new" "length new = 60"
      "\<forall>f \<in> set new. \<exists>k. f = fst (shard rnd k (width s) (height s))"
    using burst_loop_flakes [of rnd 60 s] by blast
  have "\<forall>f \<in> set new. \<bar>x f - width s / 2\<bar> \<le> width s * 0.075 \<and>
            \<bar>y f - height s / 2\<bar> \<le> height s * 0.075"
  proof
    fix f assume "f \<in> set new"
    with new(3) obtain k where "f = fst (shard rnd k (width s) (height s))" by blast
    then show "\<bar>x f - width s / 2\<bar> \<le> width s * 0.075 \<and>
            \<bar>y f - height s / 2\<bar> \<le> height s * 0.075"
      using shard_window [OF assms, of k] by simp
  qed
  then show ?thesis
    using new(1,2) by (simp add: burstIceShards_def)
qed

theorem burst_adds_sixty_in_window_witness:
  "unit_random (\<lambda>n. 1 / 2) \<and> (0::real) \<le> width one_flake \<and> 0 \<le> height one_flake \<and>
   length (flakes (burstIceShards (\<lambda>n. 1 / 2) one_flake)) = 61 \<and>
   x (flakes (burstIceShards (\<lambda>n. 1 / 2) one_flake) ! 1) = 400"
proof -
  have r: "unit_random (\<lambda>n. 1 / 2)" by (simp add: unit_random_def)
  have w: "0 \<le> width one_flake" and h: "0 \<le> height one_flake"
    by (simp_all add: one_flake_def)
  have "length (flakes (burstIceShards (\<lambda>n. 1 / 2) one_flake)) = 61"
    using burst_adds_sixty_in_window [OF r w h] by (simp add: one_flake_def)
  moreover have "x (flakes (burstIceShards (\<lambda>n. 1 / 2) one_flake) ! 1) = 400"
    by (simp add: burstIceShards_def one_flake_def eval_nat_numeral shard_def createFlake_def nth_append)
  ultimately show ?thesis using r w h by simp
qed

lemma initial_snow_length: "length (flakes (initial_snow rnd w h)) = 140"
  by (simp add: initial_snow_def fill_length maxFlakes_def)

lemma burst_length: "length (flakes (burstIceShards rnd s)) = length (flakes s) + 60"
  by (simp add: burstIceShards_def burst_loop_length)

lemma run_events_length:
  "length (flakes (run_events rnd es s)) = length (flakes s) + 60 * length (filter (\<lambda>e. e = Burst) es)"
proof (induction es arbitrary: s)
  case Nil
  then show ?case by simp
next
  case (Cons e es)
  then show ?case
    by (cases e) (simp_all add: drawSnow_length burst_length resize_def)
qed

text \<open>
  Claim C10. A frame leaves the length of the pool unchanged, a burst adds 60, and after
  any history of frames, bursts and resizes that began with the initial fill the pool
  holds 140 flakes plus 60 for each burst: the length never goes down.
\<close>

theorem pool_length_grows_only_by_bursts:
  "length (flakes (drawSnow rnd s)) = length (flakes s) \<and>
   length (flakes (burstIceShards rnd s)) = length (flakes s) + 60 \<and>
   length (flakes (run_events rnd es (initial_snow rnd w h))) =
     140 + 60 * length (filter (\<lambda>e. e = Burst) es)"
  by (simp add: drawSnow_length burst_length run_events_length initial_snow_length)

lemma wrap_x_fields:
  "x (wrap_x w f) = (if x f > w + 5 then - 5 else if x f < - 5 then w + 5 else x f)"
  "y (wrap_x w f) = y f" "speedX (wrap_x w f) = speedX f" "speedY (wrap_x w f) = speedY f"
  "radius (wrap_x w f) = radius f" "alpha (wrap_x w f) = alpha f"
  by (simp_all add: wrap_x_def Let_def)

lemma move_flake_fields:
  "x (move_flake f) = x f + speedX f" "y (move_flake f) = y f + speedY f"
  "speedX (move_flake f) = speedX f" "speedY (move_flake f) = speedY f"
  "radius (move_flake f) = radius f" "alpha (move_flake f) = alpha f"
  by (simp_all add: move_flake_def Let_def)

lemma step_flake_slot:
  "fst (step_flake rnd w h k f) =
     (if y f + speedY f > h then (fst (createFlake rnd k w h False))\<lparr> y := - 5 \<rparr>
      else wrap_x w (move_flake f))"
  by (simp add: step_flake_def Let_def split_beta move_flake_fields)

lemma draw_loop_slot:
  "i < length fs \<Longrightarrow>
   fst (draw_loop rnd w h k fs) ! i =
     fst (step_flake rnd w h
       (k + 6 * length (filter (\<lambda>f. y f + speedY f > h) (take i fs))) (fs ! i))"
proof (induction fs arbitrary: k i)
  case Nil
  then show ?case by simp
next
  case (Cons f fs)
  show ?case
  proof (cases i)
    case 0
    then show ?thesis by (simp add: split_beta Let_def)
  next
    case (Suc n)
    with Cons.prems have n: "n < length fs" by simp
    have k: "snd (snd (step_flake rnd w h k f)) = (if y f + speedY f > h then k + 6 else k)"
      by (simp add: step_flake_def Let_def split_beta move_flake_fields createFlake_calls)
    show ?thesis
      using Cons.IH [OF n, of "snd (snd (step_flake rnd w h k f))"] Suc
      by (simp add: split_beta Let_def k add.assoc)
  qed
qed

lemma draw_loop_calls:
  "snd (snd (draw_loop rnd w h k fs)) = k + 6 * length (filter (\<lambda>f. y f + speedY f > h) fs)"
proof (induction fs arbitrary: k)
  case Nil
  then show ?case by simp
next
  case (Cons f fs)
  have k: "snd (snd (step_flake rnd w h k f)) = (if y f + speedY f > h then k + 6 else k)"
    by (simp add: step_flake_def Let_def split_beta move_flake_fields createFlake_calls)
  show ?case
    using Cons.IH [of "snd (snd (step_flake rnd w h k f))"]
    by (simp add: split_beta Let_def k)
qed

lemma fresh_ranges:
  assumes "unit_random rnd"
  shows "0 \<le> rnd k" "rnd k < 1"
  using assms by (simp_all add: unit_random_def)

lemma unit_random_harmonic: "unit_random harmonic"
  by (simp add: unit_random_def harmonic_def)

text \<open>
  Claim C8. In one frame the object in slot \<open>i\<close> is moved once by its velocity; if it
  is then right of \<open>width + 5\<close> it goes to \<open>-5\<close>, if it is left of \<open>-5\<close> it
  goes to \<open>width + 5\<close>, and its velocity, radius and alpha are unchanged; this is the
  object that the frame paints. If after the move it is below \<open>height\<close>, the slot
  gets a new flake at \<open>y = -5\<close> whose other five fields are computed from random
  calls that nothing used before: the calls \<open>k\<close>, \<open>k + 2\<close>, ..., \<open>k + 5\<close> where
  \<open>k\<close> is the number of calls made before the frame plus six for every slot before
  \<open>i\<close> that was replaced in this frame (the call \<open>k + 1\<close> is spent on the
  \<open>y\<close> that is overwritten). With random values in \<open>[0, 1)\<close> the new flake lies
  between the side bounds and its radius, velocity and alpha are in the ranges of
  \<open>createFlake(false)\<close>. Otherwise the slot keeps the object. The frame makes six
  random calls for every replaced flake and no other.
\<close>

theorem tick_moves_then_recycles_or_wraps:
  assumes "i < length (flakes s)"
  shows "y (painted rnd s ! i) = y (flakes s ! i) + speedY (flakes s ! i) \<and>
         x (painted rnd s ! i) =
           (if x (flakes s ! i) + speedX (flakes s ! i) > width s + 5 then - 5
            else if x (flakes s ! i) + speedX (flakes s ! i) < - 5 then width s + 5
            else x (flakes s ! i) + speedX (flakes s ! i)) \<and>
         speedX (painted rnd s ! i) = speedX (flakes s ! i) \<and>
         speedY (painted rnd s ! i) = speedY (flakes s ! i) \<and>
         radius (painted rnd s ! i) = radius (flakes s ! i) \<and>
         alpha (painted rnd s ! i) = alpha (flakes s ! i) \<and>
         (if y (flakes s ! i) + speedY (flakes s ! i) > height s
          then (let k = calls s + 6 * length (filter (\<lambda>f. y f + speedY f > height s)
                                                (take i (flakes s)));
                    g = flakes (drawSnow rnd s) ! i
                in g = \<lparr> x = rnd k * width s, y = - 5,
                         radius = 0.6 + rnd (k + 2) * 1.8,
                         speedY = 0.5 + rnd (k + 3) * 1.5,
                         speedX = (rnd (k + 4) - 0.5) * 0.4,
                         alpha = 0.4 + rnd (k + 5) * 0.6 \<rparr> \<and>
                   (unit_random rnd \<and> 0 \<le> width s \<longrightarrow>
                      0 \<le> x g \<and> x g \<le> width s \<and>
                      0.6 \<le> radius g \<and> radius g < 2.4 \<and>
                      0.5 \<le> speedY g \<and> speedY g < 2 \<and>
                      - 0.2 \<le> speedX g \<and> speedX g < 0.2 \<and>
                      0.4 \<le> alpha g \<and> alpha g < 1))
          else flakes (drawSnow rnd s) ! i = painted rnd s ! i) \<and>
         calls (drawSnow rnd s) =
           calls s + 6 * length (filter (\<lambda>f. y f + speedY f > height s) (flakes s))"
proof -
  define k where "k = calls s + 6 * length (filter (\<lambda>f. y f + speedY f > height s)
      (take i (flakes s)))"
  define g where "g = flakes (drawSnow rnd s) ! i"
  have d: "painted rnd s ! i = wrap_x (width s) (move_flake (flakes s ! i))"
    using assms by (simp add: painted_def draw_loop_painted)
  have j: "g = fst (step_flake rnd (width s) (height s) k (flakes s ! i))"
    using draw_loop_slot [OF assms, of rnd "width s" "height s" "calls s"]
    by (simp add: g_def k_def drawSnow_def split_beta)
  have c: "calls (drawSnow rnd s) =
      calls s + 6 * length (filter (\<lambda>f. y f + speedY f > height s) (flakes s))"
    using draw_loop_calls [of rnd "width s" "height s" "calls s" "flakes s"]
    by (simp add: drawSnow_def split_beta)
  have keep: "g = painted rnd s ! i" if "\<not> y (flakes s ! i) + speedY (flakes s ! i) > height s"
    using that by (simp add: j d step_flake_slot)
  have new: "g = \<lparr> x = rnd k * width s, y = - 5,
                         radius = 0.6 + rnd (k + 2) * 1.8,
                         speedY = 0.5 + rnd (k + 3) * 1.5,
                         speedX = (rnd (k + 4) - 0.5) * 0.4,
                         alpha = 0.4 + rnd (k + 5) * 0.6 \<rparr>"
    if "y (flakes s ! i) + speedY (flakes s ! i) > height s"
    using that by (simp add: j step_flake_slot createFlake_def)
  have ranges: "0 \<le> x g \<and> x g \<le> width s \<and>
                      0.6 \<le> radius g \<and> radius g < 2.4 \<and>
                      0.5 \<le> speedY g \<and> speedY g < 2 \<and>
                      - 0.2 \<le> speedX g \<and> speedX g < 0.2 \<and>
                      0.4 \<le> alpha g \<and> alpha g < 1"
    if r: "unit_random rnd" and w: "0 \<le> width s"
      and b: "y (flakes s ! i) + speedY (flakes s ! i) > height s"
  proof -
    note u = fresh_ranges [OF r]
    have "0 \<le> rnd k * width s" using u(1) [of k] w by simp
    moreover have "rnd k * width s \<le> width s"
      using mult_left_le_one_le [of "width s" "rnd k"] u(1) [of k] u(2) [of k] w by simp
    ultimately show ?thesis
      using u(1) [of "k + 2"] u(2) [of "k + 2"] u(1) [of "k + 3"] u(2) [of "k + 3"]
        u(1) [of "k + 4"] u(2) [of "k + 4"] u(1) [of "k + 5"] u(2) [of "k + 5"]
      by (simp add: new [OF b])
  qed
  have slot: "if y (flakes s ! i) + speedY (flakes s ! i) > height s
          then (g = \<lparr> x = rnd k * width s, y = - 5,
                         radius = 0.6 + rnd (k + 2) * 1.8,
                         speedY = 0.5 + rnd (k + 3) * 1.5,
                         speedX = (rnd (k + 4) - 0.5) * 0.4,
                         alpha = 0.4 + rnd (k + 5) * 0.6 \<rparr> \<and>
                   (unit_random rnd \<and> 0 \<le> width s \<longrightarrow>
                      0 \<le> x g \<and> x g \<le> width s \<and>
                      0.6 \<le> radius g \<and> radius g < 2.4 \<and>
                      0.5 \<le> speedY g \<and> speedY g < 2 \<and>
                      - 0.2 \<le> speedX g \<and> speedX g < 0.2 \<and>
                      0.4 \<le> alpha g \<and> alpha g < 1))
          else g = painted rnd s ! i"
    using keep new ranges by presburger
  have mv: "y (painted rnd s ! i) = y (flakes s ! i) + speedY (flakes s ! i) \<and>
         x (painted rnd s ! i) =
           (if x (flakes s ! i) + speedX (flakes s ! i) > width s + 5 then - 5
            else if x (flakes s ! i) + speedX (flakes s ! i) < - 5 then width s + 5
            else x (flakes s ! i) + speedX (flakes s ! i)) \<and>
         speedX (painted rnd s ! i) = speedX (flakes s ! i) \<and>
         speedY (painted rnd s ! i) = speedY (flakes s ! i) \<and>
         radius (painted rnd s ! i) = radius (flakes s ! i) \<and>
         alpha (painted rnd s ! i) = alpha (flakes s ! i)"
    by (simp add: d wrap_x_fields move_flake_fields)
  show ?thesis
    unfolding Let_def using mv slot c unfolding g_def k_def by blast
qed

theorem tick_moves_then_recycles_or_wraps_witness:
  "(0::nat) < length (flakes three_flakes) \<and> (2::nat) < length (flakes three_flakes) \<and>
   unit_random harmonic \<and> 0 \<le> width three_flakes \<and>
   painted harmonic three_flakes ! 0 =
     \<lparr> x = - 5, y = 21, radius = 1, speedY = 1, speedX = 2, alpha = 1 / 2 \<rparr> \<and>
   flakes (drawSnow harmonic three_flakes) ! 0 = painted harmonic three_flakes ! 0 \<and>
   painted harmonic three_flakes ! 2 =
     \<lparr> x = 31, y = 601, radius = 2, speedY = 2, speedX = 1, alpha = 1 \<rparr> \<and>
   flakes (drawSnow harmonic three_flakes) ! 2 =
     \<lparr> x = 40, y = - 5, radius = 0.6 + 1.8 / 22, speedY = 0.5 + 1.5 / 23,
        speedX = (1 / 24 - 0.5) * 0.4, alpha = 0.4 + 0.6 / 25 \<rparr> \<and>
   calls (drawSnow harmonic three_flakes) = 24"
proof -
  have l0: "0 < length (flakes three_flakes)" and l2: "2 < length (flakes three_flakes)"
    by (simp_all add: three_flakes_def)
  have p0: "painted harmonic three_flakes ! 0 =
     \<lparr> x = - 5, y = 21, radius = 1, speedY = 1, speedX = 2, alpha = 1 / 2 \<rparr>"
    using tick_moves_then_recycles_or_wraps [OF l0, of harmonic]
    by (cases "painted harmonic three_flakes ! 0") (simp add: three_flakes_def)
  have s0: "flakes (drawSnow harmonic three_flakes) ! 0 = painted harmonic three_flakes ! 0"
    using tick_moves_then_recycles_or_wraps [OF l0, of harmonic]
    by (simp add: three_flakes_def)
  have p2: "painted harmonic three_flakes ! 2 =
     \<lparr> x = 31, y = 601, radius = 2, speedY = 2, speedX = 1, alpha = 1 \<rparr>"
    using tick_moves_then_recycles_or_wraps [OF l2, of harmonic]
    by (cases "painted harmonic three_flakes ! 2") (simp add: three_flakes_def)
  have s2: "flakes (drawSnow harmonic three_flakes) ! 2 =
     \<lparr> x = 40, y = - 5, radius = 0.6 + 1.8 / 22, speedY = 0.5 + 1.5 / 23,
        speedX = (1 / 24 - 0.5) * 0.4, alpha = 0.4 + 0.6 / 25 \<rparr>"
    using tick_moves_then_recycles_or_wraps [OF l2, of harmonic]
    by (simp add: three_flakes_def harmonic_def Let_def)
  have c: "calls (drawSnow harmonic three_flakes) = 24"
    using tick_moves_then_recycles_or_wraps [OF l2, of harmonic]
    by (simp add: three_flakes_def)
  show ?thesis
    using l0 l2 p0 s0 p2 s2 c unit_random_harmonic by (simp add: three_flakes_def)
qed


lemma createFlake_falling:
  assumes "unit_random rnd" "0 \<le> h"
  shows "falling (fst (createFlake rnd k w h False))"
proof -
  have r: "0 \<le> rnd (Suc k)" "0 \<le> rnd (k + 3)"
    using assms(1) by (simp_all add: unit_random_def)
  have "0 \<le> rnd (Suc k) * h"
    using r(1) assms(2) by (rule mult_nonneg_nonneg)
  then have "- 5 \<le> rnd (Suc k) * h" by linarith
  then show ?thesis
    using r(2) by (simp add: falling_def createFlake_def)
qed

lemma createFlake_x:
  assumes "unit_random rnd" "0 \<le> w"
  shows "0 \<le> x (fst (createFlake rnd k w h False))"
    and "x (fst (createFlake rnd k w h False)) \<le> w"
proof -
  have r: "0 \<le> rnd k" "rnd k \<le> 1"
    using assms(1) by (simp_all add: unit_random_def less_imp_le)
  show "0 \<le> x (fst (createFlake rnd k w h False))"
    using r assms(2) by (simp add: createFlake_def)
  have "rnd k * w \<le> 1 * w"
    using r assms(2) by (intro mult_right_mono) simp_all
  then show "x (fst (createFlake rnd k w h False)) \<le> w"
    by (simp add: createFlake_def)
qed

lemma shard_falling:
  assumes "unit_random rnd" "0 \<le> w" "0 \<le> h"
  shows "falling (fst (shard rnd k w h))"
proof -
  have "\<bar>y (fst (shard rnd k w h)) - h / 2\<bar> \<le> h * 0.075"
    using shard_window(2) [OF assms] .
  then have "\<bar>y (fst (shard rnd k w h)) - h / 2\<bar> \<le> h * (3 / 40)"
    by simp
  then have a: "- 5 \<le> y (fst (shard rnd k w h))"
    using assms(3) by linarith
  have "0 \<le> rnd (k + 8)"
    using assms(1) by (simp add: unit_random_def)
  then have "0 \<le> speedY (fst (shard rnd k w h))"
    by (simp add: shard_def createFlake_def add.commute)
  with a show ?thesis by (simp add: falling_def)
qed

lemma fill_falling:
  assumes "unit_random rnd" "0 \<le> height s" "list_all falling (flakes s)"
  shows "list_all falling (flakes (fill rnd n s))"
  using assms
proof (induction n arbitrary: s)
  case 0
  then show ?case by simp
next
  case (Suc n)
  have "falling (fst (createFlake rnd (calls s) (width s) (height s) False))"
    using createFlake_falling [OF Suc.prems(1,2)] .
  then show ?case
    using Suc.prems by (simp add: split_beta Let_def Suc.IH)
qed

lemma burst_loop_falling:
  assumes "unit_random rnd" "0 \<le> width s" "0 \<le> height s" "list_all falling (flakes s)"
  shows "list_all falling (flakes (burst_loop rnd n s))"
  using assms
proof (induction n arbitrary: s)
  case 0
  then show ?case by simp
next
  case (Suc n)
  have "falling (fst (shard rnd (calls s) (width s) (height s)))"
    using shard_falling [OF Suc.prems(1,2,3)] .
  then show ?case
    using Suc.prems by (simp add: split_beta Let_def Suc.IH)
qed

lemma step_flake_ok:
  assumes "unit_random rnd" "0 \<le> w" "0 \<le> h" "falling f"
  shows "falling (fst (step_flake rnd w h k f))"
    and "in_bounds w h (fst (step_flake rnd w h k f))"
proof -
  let ?g = "fst (createFlake rnd k w h False)"
  have g: "falling ?g" "0 \<le> x ?g" "x ?g \<le> w"
    using createFlake_falling [OF assms(1,3)] createFlake_x [OF assms(1,2)] by simp_all
  show "falling (fst (step_flake rnd w h k f))"
    using assms(4) g(1)
    by (simp add: step_flake_slot falling_def wrap_x_fields move_flake_fields)
  show "in_bounds w h (fst (step_flake rnd w h k f))"
    using assms(2,3,4) g
    by (simp add: step_flake_slot falling_def in_bounds_def wrap_x_fields move_flake_fields)
qed

lemma draw_loop_ok:
  assumes "unit_random rnd" "0 \<le> w" "0 \<le> h" "list_all falling fs"
  shows "list_all falling (fst (draw_loop rnd w h k fs)) \<and>
         list_all (in_bounds w h) (fst (draw_loop rnd w h k fs))"
  using assms(4)
proof (induction fs arbitrary: k)
  case Nil
  then show ?case by simp
next
  case (Cons f fs)
  then have f: "falling f" and fs: "list_all falling fs" by simp_all
  show ?case
    using step_flake_ok [OF assms(1,2,3) f, of k] Cons.IH [OF fs]
    by (simp add: split_beta Let_def)
qed

lemma drawSnow_inv: "unit_random rnd \<Longrightarrow> pool_inv s \<Longrightarrow> pool_inv (drawSnow rnd s)"
  using draw_loop_ok [of rnd "width s" "height s" "flakes s" "calls s"]
  by (simp add: pool_inv_def drawSnow_def split_beta)

lemma drawSnow_in_bounds:
  "unit_random rnd \<Longrightarrow> pool_inv s \<Longrightarrow>
   list_all (in_bounds (width s) (height s)) (flakes (drawSnow rnd s))"
  using draw_loop_ok [of rnd "width s" "height s" "flakes s" "calls s"]
  by (simp add: pool_inv_def drawSnow_def split_beta)

lemma burst_inv: "unit_random rnd \<Longrightarrow> pool_inv s \<Longrightarrow> pool_inv (burstIceShards rnd s)"
  by (simp add: pool_inv_def burstIceShards_def burst_loop_falling)

lemma initial_inv: "unit_random rnd \<Longrightarrow> 0 \<le> w \<Longrightarrow> 0 \<le> h \<Longrightarrow> pool_inv (initial_snow rnd w h)"
  by (simp add: pool_inv_def initial_snow_def fill_falling)

lemma run_events_inv:
  "unit_random rnd \<Longrightarrow> list_all valid_event es \<Longrightarrow> pool_inv s \<Longrightarrow> pool_inv (run_events rnd es s)"
proof (induction es arbitrary: s)
  case Nil
  then show ?case by simp
next
  case (Cons e es)
  have "pool_inv (apply_event rnd e s)"
  proof (cases e)
    case Tick
    then show ?thesis using Cons.prems by (simp add: drawSnow_inv)
  next
    case Burst
    then show ?thesis using Cons.prems by (simp add: burst_inv)
  next
    case (Resize w h)
    then show ?thesis using Cons.prems by (simp add: pool_inv_def resize_def)
  qed
  then show ?case using Cons by simp
qed

text \<open>
  Claim C4. Start from the initial fill and let any frames, bursts and resizes (to
  bounds that are not negative) happen. After the next frame every flake of the pool has
  \<open>x\<close> in \<open>[-5, width + 5]\<close> and \<open>y\<close> in \<open>[-5, height]\<close>, for the bounds
  in force at that frame.
\<close>

theorem particles_in_bounds_after_every_tick:
  assumes "unit_random rnd" and "0 \<le> w" and "0 \<le> h" and "list_all valid_event es"
  shows "\<forall>f \<in> set (flakes (drawSnow rnd (run_events rnd es (initial_snow rnd w h)))).
           - 5 \<le> x f \<and> x f \<le> width (run_events rnd es (initial_snow rnd w h)) + 5 \<and>
           - 5 \<le> y f \<and> y f \<le> height (run_events rnd es (initial_snow rnd w h))"
proof -
  have "pool_inv (run_events rnd es (initial_snow rnd w h))"
    using assms by (simp add: run_events_inv initial_inv)
  from drawSnow_in_bounds [OF assms(1) this] show ?thesis
    by (simp add: list_all_iff in_bounds_def)
qed

theorem particles_in_bounds_after_every_tick_witness:
  "unit_random (\<lambda>n. 1 / 2) \<and> (0::real) \<le> 800 \<and> (0::real) \<le> 600 \<and>
   list_all valid_event [Tick, Burst, Resize 400 300] \<and>
   list_all (\<lambda>f. - 5 \<le> x f \<and> x f \<le> 405 \<and> - 5 \<le> y f \<and> y f \<le> 300)
     (flakes (drawSnow (\<lambda>n. 1 / 2)
        (run_events (\<lambda>n. 1 / 2) [Tick, Burst, Resize 400 300] (initial_snow (\<lambda>n. 1 / 2) 800 600))))"
proof -
  have r: "unit_random (\<lambda>n. 1 / 2)" by (simp add: unit_random_def)
  have w: "(0::real) \<le> 800" and h: "(0::real) \<le> 600" by simp_all
  have e: "list_all valid_event [Tick, Burst, Resize 400 300]" by simp
  show ?thesis
    using r e particles_in_bounds_after_every_tick [OF r w h e]
    by (simp add: list_all_iff resize_def)
qed


section \<open>Proofs about the sequencer\<close>

lemmas seq_defs = startSequence_def resetStates_def setTimeout_def Let_def state_of_def
  SHOW_CHRISTMAS_def EXPLODE_DURATION_def SHOW_ICY_def LOOP_PAUSE_def

lemma sequencer_intervals:
  assumes "now p = 0" and "timers p = []"
  shows "t < 4500 \<Longrightarrow> state_of (run_until rnd t (startSequence p)) = ShowingA"
    and "4500 \<le> t \<Longrightarrow> t < 5400 \<Longrightarrow> state_of (run_until rnd t (startSequence p)) = Exploding"
    and "5400 \<le> t \<Longrightarrow> t < 10400 \<Longrightarrow> state_of (run_until rnd t (startSequence p)) = ShowingB"
    and "10400 \<le> t \<Longrightarrow> t < 11400 \<Longrightarrow> state_of (run_until rnd t (startSequence p)) = FadingOut"
    and "11400 \<le> t \<Longrightarrow> t < 15900 \<Longrightarrow> state_of (run_until rnd t (startSequence p)) = ShowingA"
  using assms by (simp_all add: seq_defs)

lemma sequencer_pending:
  assumes "now p = 0" and "timers p = []"
  shows "timers (run_until rnd 4000 (startSequence p)) = [(4500, Explode)]"
    and "timers (run_until rnd 4600 (startSequence p)) = [(5400, ShowIcy)]"
    and "timers (run_until rnd 5800 (startSequence p)) = [(10400, FadeOut)]"
    and "timers (run_until rnd 10700 (startSequence p)) = [(11400, Restart)]"
    and "timers (run_until rnd 11800 (startSequence p)) = [(15900, Explode)]"
  using assms by (simp_all add: seq_defs)

text \<open>
  Claim C3. With the durations of the source (4500, 900, 5000 and 1000 ms) and the
  sequence started at time 0 with no timer pending, the sequencer is in ShowingA at
  4000 ms, Exploding at 4600 ms, ShowingB at 5800 ms, FadingOut at 10700 ms and
  ShowingA again at 11800 ms.
\<close>

theorem sequencer_timing:
  assumes "now p = 0" and "timers p = []"
  shows "SHOW_CHRISTMAS = 4500 \<and> EXPLODE_DURATION = 900 \<and> SHOW_ICY = 5000 \<and> LOOP_PAUSE = 1000 \<and>
         state_of (run_until rnd 4000 (startSequence p)) = ShowingA \<and>
         state_of (run_until rnd 4600 (startSequence p)) = Exploding \<and>
         state_of (run_until rnd 5800 (startSequence p)) = ShowingB \<and>
         state_of (run_until rnd 10700 (startSequence p)) = FadingOut \<and>
         state_of (run_until rnd 11800 (startSequence p)) = ShowingA"
  using sequencer_intervals [OF assms, of _ rnd]
  by (simp add: SHOW_CHRISTMAS_def EXPLODE_DURATION_def SHOW_ICY_def LOOP_PAUSE_def)

theorem sequencer_timing_witness:
  "now blank_page = 0 \<and> timers blank_page = [] \<and>
   state_of (run_until (\<lambda>n. 1 / 2) 4000 (startSequence blank_page)) = ShowingA \<and>
   state_of (run_until (\<lambda>n. 1 / 2) 4600 (startSequence blank_page)) = Exploding \<and>
   state_of (run_until (\<lambda>n. 1 / 2) 5800 (startSequence blank_page)) = ShowingB \<and>
   state_of (run_until (\<lambda>n. 1 / 2) 10700 (startSequence blank_page)) = FadingOut \<and>
   state_of (run_until (\<lambda>n. 1 / 2) 11800 (startSequence blank_page)) = ShowingA"
proof -
  have n: "now blank_page = 0" and t: "timers blank_page = []"
    by (simp_all add: blank_page_def)
  show ?thesis
    using n t sequencer_timing [OF n t, of "\<lambda>n. 1 / 2"] by simp
qed

lemma gate_starts_once_when_both_ready: "starts_after True True loads = 1"
proof -
  have "fold on_load loads \<lparr> loaded = 0, listeners = [], started = 1 \<rparr> =
      \<lparr> loaded = 0, listeners = [], started = 1 \<rparr>"
    by (induction loads) (simp_all add: on_load_def)
  then show ?thesis by (simp add: starts_after_def register_def)
qed

lemma gate_starts_once_when_both_late:
  "starts_after False False [ChristmasLogoImg, DayScreenImg] = 1"
  "starts_after False False [DayScreenImg, ChristmasLogoImg] = 1"
  by (simp_all add: starts_after_def register_def on_load_def Let_def)

text \<open>
  Claim C1. The claim asks for exactly one start for every timing of readiness. The
  two lemmas above give one start when both images are complete at registration and when
  both load later, in either order. When one image is complete at registration and the
  other loads later, only one \<open>load\<close> event ever arrives, the counter stops at 1,
  and \<open>startSequence\<close> is never called.
\<close>

theorem gate_never_starts_when_one_image_was_ready:
  "later_loads True False = [DayScreenImg] \<and>
   starts_after True False (later_loads True False) = 0 \<and>
   later_loads False True = [ChristmasLogoImg] \<and>
   starts_after False True (later_loads False True) = 0"
  by (simp add: later_loads_def starts_after_def register_def on_load_def Let_def)


section \<open>Proofs about the scene and the timeline\<close>

lemma position_to [simp]: "position (to vars d e pos) = pos"
  by (simp add: to_def)

lemma setOpacity_simps:
  "setOpacity heartGroup v s = s(Opacity BigHeartPlane := v)"
  "setOpacity textGroup v s = s(Opacity TextPlane := v)"
  "setOpacity smallHeartPlane v s = s(Opacity SmallHeartPlane := v)"
  "setOpacity addonGroup v s = s(Opacity TextPlane := v, Opacity SmallHeartPlane := v)"
  "setOpacity glowGroup v s = s(Opacity GlowPlane := v)"
  by (simp_all add: setOpacity_def heartGroup_def textGroup_def smallHeartPlane_def addonGroup_def
      glowGroup_def bigHeartPlane_def textPlane_def glowPlane_def)

lemma phase0_values:
  "phase0 (Opacity TextPlane) = 1" "phase0 (Opacity SmallHeartPlane) = 1"
  "phase0 (Opacity BigHeartPlane) = 0" "phase0 (Opacity GlowPlane) = 0"
  "phase0 (Rotation FullGroup Ay) = 0" "phase0 (CamState Ay) = 0.3"
  "phase0 (Scale HeartGroup Ax) = 0.8"
  by (simp_all add: phase0_def initial_state_def build_scene_def set3_def setOpacity_simps Let_def)

lemma loop_length_eq: "loop_length = 6.8"
  by (simp add: loop_length_def master_tl_def timeline_def to_def)

lemmas tl_defs = master_tl_def timeline_def to_def xyz_def
lemmas engine_defs = seek_def render_tween_def local_time_def Let_def initial_player_def


lemma render_tween_time: "rt_time (snd (render_tween ev t tw r s)) = local_time tw t"
  by (simp add: render_tween_def Let_def)

lemma render_tween_skip:
  "rt_time r = local_time tw t \<Longrightarrow> t \<noteq> position tw \<Longrightarrow> render_tween ev t tw r s = (s, r)"
  by (simp add: render_tween_def Let_def)

lemma render_tween_run:
  assumes "\<not> (local_time tw t = rt_time r \<and> t \<noteq> position tw)"
  shows "render_tween ev t tw r s =
     (let time = local_time tw t;
          vs0 = (case rt_from r of Some vs \<Rightarrow> vs | None \<Rightarrow> map (\<lambda>(p, v1). s p) (target tw));
          s1 = (if ev \<and> rt_time r = 0 \<and> time \<noteq> 0 then onStart tw s else s);
          e = ease_fn (ease tw) (time / duration tw);
          s2 = write_props e (zip (target tw) vs0) s1;
          s3 = (if ev then onUpdate tw s2 else s2);
          s4 = (if ev \<and> time = duration tw then onComplete tw s3 else s3)
      in (s4, \<lparr> rt_time = time, rt_from = Some vs0 \<rparr>))"
  by (simp only: render_tween_def Let_def if_not_P [OF assms])

lemma render_forward_outside:
  "j < i \<or> i + length tws \<le> j \<Longrightarrow> snd (render_forward ev t i tws (s, rt)) j = rt j"
  by (induction tws arbitrary: i s rt) (auto simp: split_beta Let_def)

lemma render_forward_time:
  "i \<le> j \<Longrightarrow> j < i + length tws \<Longrightarrow>
   rt_time (snd (render_forward ev t i tws (s, rt)) j) = local_time (tws ! (j - i)) t"
proof (induction tws arbitrary: i s rt)
  case Nil
  then show ?case by simp
next
  case (Cons tw tws)
  show ?case
  proof (cases "j = i")
    case True
    then show ?thesis
      by (simp add: split_beta Let_def render_forward_outside render_tween_time)
  next
    case False
    with Cons.prems have "Suc i \<le> j" "j < Suc i + length tws" by simp_all
    from Cons.IH [OF this] show ?thesis
      using False Cons.prems by (simp add: split_beta Let_def Suc_diff_le)
  qed
qed

lemma render_backward_outside:
  "j < i \<or> i + length tws \<le> j \<Longrightarrow> snd (render_backward ev t i tws (s, rt)) j = rt j"
  by (induction tws arbitrary: i) (auto simp: split_beta Let_def)

lemma render_backward_time:
  "i \<le> j \<Longrightarrow> j < i + length tws \<Longrightarrow>
   rt_time (snd (render_backward ev t i tws (s, rt)) j) = local_time (tws ! (j - i)) t"
proof (induction tws arbitrary: i)
  case Nil
  then show ?case by simp
next
  case (Cons tw tws)
  show ?case
  proof (cases "j = i")
    case True
    then show ?thesis
      by (simp add: split_beta Let_def render_tween_time)
  next
    case False
    with Cons.prems have "Suc i \<le> j" "j < Suc i + length tws" by simp_all
    from Cons.IH [OF this] show ?thesis
      using False Cons.prems by (simp add: split_beta Let_def Suc_diff_le)
  qed
qed

lemma seek_time:
  "j < length master_tl \<Longrightarrow> rt_time (rts (seek ev t pl) j) = local_time (master_tl ! j) t"
  using render_forward_time [of 0 j master_tl ev t "store pl" "rts pl"]
    render_backward_time [of 0 j master_tl ev t "store pl" "rts pl"]
  by (simp add: seek_def split_beta)

lemma seek_playhead [simp]: "playhead (seek ev t pl) = t"
  by (simp add: seek_def split_beta)


lemma write_props_other:
  "q \<notin> fst ` fst ` set ps \<Longrightarrow> write_props e ps s q = s q"
  by (induction e ps s rule: write_props.induct) auto

lemma zip_targets: "fst ` fst ` set (zip xs ys) \<subseteq> fst ` set xs"
  by (force dest: set_zip_leftD)

lemma write_props_zip_other:
  assumes "q \<notin> fst ` set xs"
  shows "write_props e (zip xs vs) s q = s q"
proof (rule write_props_other)
  show "q \<notin> fst ` fst ` set (zip xs vs)"
    using assms zip_targets [of xs vs] by blast
qed

lemma render_tween_keeps:
  assumes "keeps q tw"
  shows "fst (render_tween ev t tw r s) q = s q"
proof -
  have "q \<notin> fst ` set (target tw)"
    using assms by (simp add: keeps_def)
  then show ?thesis
    using assms by (simp add: render_tween_def Let_def keeps_def write_props_zip_other)
qed

lemma render_forward_keeps:
  "list_all (keeps q) tws \<Longrightarrow> fst (render_forward ev t i tws (s, rt)) q = s q"
proof (induction tws arbitrary: i s rt)
  case Nil
  then show ?case by simp
next
  case (Cons tw tws)
  then have tw: "keeps q tw" and tws: "list_all (keeps q) tws" by simp_all
  show ?case
    using render_tween_keeps [OF tw, of ev t "rt i" s] Cons.IH [OF tws]
    by (simp add: split_beta Let_def)
qed

lemma render_backward_keeps:
  "list_all (keeps q) tws \<Longrightarrow> fst (render_backward ev t i tws (s, rt)) q = s q"
proof (induction tws arbitrary: i)
  case Nil
  then show ?case by simp
next
  case (Cons tw tws)
  then have tw: "keeps q tw" and tws: "list_all (keeps q) tws" by simp_all
  show ?case
    using render_tween_keeps [OF tw] Cons.IH [OF tws]
    by (simp add: split_beta Let_def)
qed

lemma seek_keeps: "list_all (keeps q) master_tl \<Longrightarrow> store (seek ev t pl) q = store pl q"
  by (simp add: seek_def split_beta render_forward_keeps render_backward_keeps)

lemma set3_other: "q \<notin> set (vec f) \<Longrightarrow> set3 f a b c s q = s q"
  by (auto simp: set3_def vec_def)

lemma xyz_targets: "fst ` set (xyz f a b c) = set (vec f)"
  by (simp add: xyz_def vec_def)

lemma keeps_to [simp]: "keeps q (to vars d e pos) = (q \<notin> fst ` set vars)"
  by (simp add: keeps_def to_def)

lemma keeps_onStart [simp]:
  "keeps q ((to vars d e pos)\<lparr> onStart := f \<rparr>) = (q \<notin> fst ` set vars \<and> (\<forall>s. f s q = s q))"
  by (simp add: keeps_def to_def)

lemma keeps_onUpdate [simp]:
  "keeps q ((to vars d e pos)\<lparr> onUpdate := f \<rparr>) = (q \<notin> fst ` set vars \<and> (\<forall>s. f s q = s q))"
  by (simp add: keeps_def to_def)

lemma keeps_onComplete [simp]:
  "keeps q ((to vars d e pos)\<lparr> onComplete := f \<rparr>) = (q \<notin> fst ` set vars \<and> (\<forall>s. f s q = s q))"
  by (simp add: keeps_def to_def)

lemma unmutable:
  assumes "q \<notin> set mutable_props"
  shows "q \<notin> set (vec (Scale HeartGroup))" "q \<notin> set (vec (Scale TextGroup))"
    "q \<notin> set (vec (Scale AddonGroup))" "q \<notin> set (vec (Scale GlowGroup))"
    "q \<notin> set (vec (Scale FullGroup))" "q \<notin> set (vec (Position SmallHeartPlane))"
    "q \<notin> set (vec (Position AddonGroup))" "q \<notin> set (vec (Position GlowGroup))"
    "q \<notin> set (vec (Rotation TextGroup))" "q \<notin> set (vec (Rotation SmallHeartPlane))"
    "q \<notin> set (vec (Rotation AddonGroup))" "q \<notin> set (vec (Rotation FullGroup))"
    "q \<notin> set (vec CamState)"
    "q \<noteq> Opacity BigHeartPlane" "q \<noteq> Opacity TextPlane"
    "q \<noteq> Opacity SmallHeartPlane" "q \<noteq> Opacity GlowPlane"
  using assms by (auto simp: mutable_props_def)

lemma callbacks_other:
  assumes "q \<notin> set mutable_props"
  shows "setOpacity heartGroup v s q = s q" "setOpacity textGroup v s q = s q"
    "setOpacity smallHeartPlane v s q = s q" "setOpacity addonGroup v s q = s q"
    "setOpacity glowGroup v s q = s q" "spin_complete s q = s q"
    "hold_start s q = s q" "reset_start s q = s q"
proof -
  note u = unmutable [OF assms]
  show o1: "setOpacity heartGroup v s q = s q" for v s
    using u(14) by (simp add: setOpacity_simps)
  show o2: "setOpacity textGroup v s q = s q" for v s
    using u(15) by (simp add: setOpacity_simps)
  show o3: "setOpacity smallHeartPlane v s q = s q" for v s
    using u(16) by (simp add: setOpacity_simps)
  show o4: "setOpacity addonGroup v s q = s q" for v s
    using u(15,16) by (simp add: setOpacity_simps)
  show o5: "setOpacity glowGroup v s q = s q" for v s
    using u(17) by (simp add: setOpacity_simps)
  show "spin_complete s q = s q"
    using u(12) by (auto simp: spin_complete_def vec_def)
  show "hold_start s q = s q"
    using u(1) by (simp add: hold_start_def o1 set3_other)
  have c: "q \<noteq> CamState Ax" "q \<noteq> CamState Ay" "q \<noteq> CamState Az"
    using u(13) by (auto simp: vec_def)
  show "reset_start s q = s q"
    using u(1-12) c by (simp add: reset_start_def Let_def o1 o2 o3 o4 o5 set3_other)
qed

lemma timeline_keeps:
  assumes "q \<notin> set mutable_props"
  shows "list_all (keeps q) (timeline phase0)"
proof -
  note u = unmutable [OF assms]
  have r: "q \<noteq> Rotation SmallHeartPlane Az" "q \<noteq> Rotation FullGroup Ay"
    "q \<noteq> CamState Ay" "q \<noteq> CamState Az"
    "q \<noteq> Rotation AddonGroup Az" "q \<noteq> Rotation AddonGroup Ay"
    using u(10,11,12,13) by (auto simp: vec_def)
  show ?thesis
    using u(1-13) r
    by (simp add: timeline_def xyz_targets callbacks_other [OF assms])
qed

lemma master_tl_keeps: "q \<notin> set mutable_props \<Longrightarrow> list_all (keeps q) master_tl"
  using timeline_keeps [of q] by (simp add: master_tl_def list_all_iff)

lemma reset_start_phase0: "p \<in> set mutable_props \<Longrightarrow> reset_start s p = phase0 p"
  by (auto simp add: mutable_props_def vec_def reset_start_def phase0_def initial_state_def
      build_scene_def set3_def setOpacity_simps Let_def)

lemma render_forward_append:
  "render_forward ev t i (xs @ ys) sr =
     render_forward ev t (i + length xs) ys (render_forward ev t i xs sr)"
proof (induction xs arbitrary: i sr)
  case Nil
  then show ?case by simp
next
  case (Cons tw xs)
  obtain s rt where sr: "sr = (s, rt)" by (cases sr)
  show ?case
    by (simp add: sr split_beta Let_def Cons.IH)
qed

lemma master_tl_last:
  "master_tl = butlast master_tl @ [(to [] 0.2 Power2Out 6.6)\<lparr> onStart := reset_start \<rparr>]"
  "length (butlast master_tl) = 26"
  "length master_tl = 27"
  by (simp_all add: master_tl_def timeline_def)

lemma end_of_loop:
  assumes "rt_time (rts pl 26) = 0" and "playhead pl \<le> loop_length"
    and "p \<in> set mutable_props"
  shows "store (seek True loop_length pl) p = phase0 p"
proof -
  let ?last = "(to [] 0.2 Power2Out 6.6)\<lparr> onStart := reset_start \<rparr>"
  obtain s1 rt1 where r1:
    "render_forward True loop_length 0 (butlast master_tl) (store pl, rts pl) = (s1, rt1)"
    by (cases "render_forward True loop_length 0 (butlast master_tl) (store pl, rts pl)")
  have "rt1 26 = rts pl 26"
    using render_forward_outside [of 26 0 "butlast master_tl" True loop_length "store pl" "rts pl"]
    by (simp add: r1 master_tl_last(3))
  then have t0: "rt_time (rt1 26) = 0"
    using assms(1) by simp
  have "render_forward True loop_length 0 master_tl (store pl, rts pl) =
      render_forward True loop_length 26 [?last] (s1, rt1)"
    using render_forward_append [of True loop_length 0 "butlast master_tl" "[?last]" "(store pl, rts pl)"]
      master_tl_last by (simp add: r1)
  then have "fst (render_forward True loop_length 0 master_tl (store pl, rts pl)) = reset_start s1"
    using t0 by (simp add: render_tween_def local_time_def to_def loop_length_eq Let_def)
  then have "store (seek True loop_length pl) = reset_start s1"
    using assms(2) by (simp add: seek_def split_beta)
  then show ?thesis
    using assms(3) by (simp add: reset_start_phase0)
qed

lemma seek_frame: "p \<notin> set mutable_props \<Longrightarrow> store (seek ev t pl) p = store pl p"
  by (simp add: seek_keeps master_tl_keeps)

lemma play_keeps: "list_all (keeps q) master_tl \<Longrightarrow> store (play dt pl) q = store pl q"
  by (simp add: play_def rewind_def Let_def seek_keeps)

lemma camera_unmutable: "CameraPosition a \<notin> set mutable_props"
  by (simp add: mutable_props_def vec_def)

text \<open>
  Claim C9. No tween of the timeline targets the position of the rendering camera and
  no callback writes it; \<open>animate\<close> copies \<open>camState\<close> into it before it paints,
  paints with that position, and leaves \<open>camState\<close> unchanged.
\<close>

theorem camera_position_only_copied_from_camState:
  "list_all (keeps (CameraPosition a)) (timeline phase0) \<and>
   snd (animate s) = (s (CamState Ax), s (CamState Ay), s (CamState Az)) \<and>
   fst (animate s) (CameraPosition a) = s (CamState a) \<and>
   fst (animate s) (CamState a) = s (CamState a)"
proof -
  have k: "list_all (keeps (CameraPosition a)) (timeline phase0)"
    using camera_unmutable by (rule timeline_keeps)
  have "fst (animate s) (CameraPosition a) = s (CamState a)"
    by (cases a) (simp_all add: animate_def set3_def Let_def)
  moreover have "fst (animate s) (CamState a) = s (CamState a)"
    by (simp add: animate_def set3_def Let_def)
  moreover have "snd (animate s) = (s (CamState Ax), s (CamState Ay), s (CamState Az))"
    by (simp add: animate_def set3_def Let_def)
  ultimately show ?thesis
    using k by simp
qed

text \<open>With the engine: evaluating or playing the timeline leaves the position of the
  rendering camera as it was.\<close>

lemma camera_untouched_by_timeline:
  "store (seek ev t pl) (CameraPosition a) = store pl (CameraPosition a)"
  "store (play dt pl) (CameraPosition a) = store pl (CameraPosition a)"
  using camera_unmutable [of a] by (simp_all add: seek_keeps play_keeps master_tl_keeps)


section \<open>Proofs about the hero spin\<close>

lemma spin_inv_zero: "spin_inv v r \<Longrightarrow> spin_inv 0 r"
  by (simp add: spin_inv_def)

lemma render_tween_calm:
  assumes "calm tw"
  shows "fst (render_tween ev t tw r s) (Rotation FullGroup Ay) = s (Rotation FullGroup Ay) \<or>
         fst (render_tween ev t tw r s) (Rotation FullGroup Ay) = 0"
proof -
  let ?q = "Rotation FullGroup Ay"
  have w: "write_props e (zip (target tw) vs) s' ?q = s' ?q" for e vs s'
    using assms by (simp add: calm_def write_props_zip_other)
  have a: "onStart tw s' ?q = s' ?q \<or> onStart tw s' ?q = 0" for s'
    using assms by (simp add: calm_def)
  have b: "onUpdate tw s' ?q = s' ?q \<or> onUpdate tw s' ?q = 0" for s'
    using assms by (simp add: calm_def)
  have c: "onComplete tw s' ?q = s' ?q \<or> onComplete tw s' ?q = 0" for s'
    using assms by (simp add: calm_def)
  define vs0 where
    "vs0 = (case rt_from r of Some vs \<Rightarrow> vs | None \<Rightarrow> map (\<lambda>(p, v1). s p) (target tw))"
  define e where "e = ease_fn (ease tw) (local_time tw t / duration tw)"
  define s1 where "s1 = (if ev \<and> rt_time r = 0 \<and> local_time tw t \<noteq> 0 then onStart tw s else s)"
  define s2 where "s2 = write_props e (zip (target tw) vs0) s1"
  define s3 where "s3 = (if ev then onUpdate tw s2 else s2)"
  define s4 where "s4 = (if ev \<and> local_time tw t = duration tw then onComplete tw s3 else s3)"
  have r: "fst (render_tween ev t tw r s) =
      (if local_time tw t = rt_time r \<and> t \<noteq> position tw then s else s4)"
    by (simp add: render_tween_def Let_def s4_def s3_def s2_def s1_def e_def vs0_def)
  have 1: "s1 ?q = s ?q \<or> s1 ?q = 0" using a [of s] by (simp add: s1_def)
  have 2: "s2 ?q = s1 ?q" by (simp add: s2_def w)
  have 3: "s3 ?q = s2 ?q \<or> s3 ?q = 0" using b [of s2] by (simp add: s3_def)
  have 4: "s4 ?q = s3 ?q \<or> s4 ?q = 0" using c [of s3] by (simp add: s4_def)
  from 1 2 3 4 have "s4 ?q = s ?q \<or> s4 ?q = 0" by auto
  then show ?thesis by (simp add: r)
qed

lemma render_forward_calm:
  "list_all calm tws \<Longrightarrow>
   fst (render_forward ev t i tws (s, rt)) (Rotation FullGroup Ay) = s (Rotation FullGroup Ay) \<or>
   fst (render_forward ev t i tws (s, rt)) (Rotation FullGroup Ay) = 0"
proof (induction tws arbitrary: i s rt)
  case Nil
  then show ?case by simp
next
  case (Cons tw tws)
  then have tw: "calm tw" and tws: "list_all calm tws" by simp_all
  obtain s' r' where sr: "render_tween ev t tw (rt i) s = (s', r')"
    by (cases "render_tween ev t tw (rt i) s")
  have "s' (Rotation FullGroup Ay) = s (Rotation FullGroup Ay) \<or> s' (Rotation FullGroup Ay) = 0"
    using render_tween_calm [OF tw, of ev t "rt i" s] by (simp add: sr)
  moreover have "fst (render_forward ev t (Suc i) tws (s', rt(i := r'))) (Rotation FullGroup Ay)
        = s' (Rotation FullGroup Ay) \<or>
      fst (render_forward ev t (Suc i) tws (s', rt(i := r'))) (Rotation FullGroup Ay) = 0"
    using Cons.IH [OF tws] .
  ultimately show ?case
    by (auto simp: sr)
qed

lemma render_backward_calm:
  "list_all calm tws \<Longrightarrow>
   fst (render_backward ev t i tws (s, rt)) (Rotation FullGroup Ay) = s (Rotation FullGroup Ay) \<or>
   fst (render_backward ev t i tws (s, rt)) (Rotation FullGroup Ay) = 0"
proof (induction tws arbitrary: i)
  case Nil
  then show ?case by simp
next
  case (Cons tw tws)
  then have tw: "calm tw" and tws: "list_all calm tws" by simp_all
  obtain s1 rt1 where sr: "render_backward ev t (Suc i) tws (s, rt) = (s1, rt1)"
    by (cases "render_backward ev t (Suc i) tws (s, rt)")
  have "s1 (Rotation FullGroup Ay) = s (Rotation FullGroup Ay) \<or> s1 (Rotation FullGroup Ay) = 0"
    using Cons.IH [OF tws, of "Suc i"] by (simp add: sr)
  moreover have "fst (render_tween ev t tw (rt1 i) s1) (Rotation FullGroup Ay)
        = s1 (Rotation FullGroup Ay) \<or>
      fst (render_tween ev t tw (rt1 i) s1) (Rotation FullGroup Ay) = 0"
    using render_tween_calm [OF tw] .
  ultimately show ?case
    by (auto simp: sr split_beta)
qed

lemma power2InOut_unit:
  assumes "0 \<le> p" "p \<le> 1"
  shows "0 \<le> ease_fn Power2InOut p" "ease_fn Power2InOut p \<le> 1"
proof -
  have a: "0 \<le> (p * 2) ^ 3" using assms(1) by simp
  have "(1 - p) * 2 \<le> 2" "0 \<le> (1 - p) * 2" using assms by simp_all
  have b: "0 \<le> ((1 - p) * 2) ^ 3" using assms(2) by simp
  have c: "p < 0.5 \<Longrightarrow> (p * 2) ^ 3 \<le> 1"
  proof -
    assume "p < 0.5"
    then have "p * 2 \<le> 1" by simp
    moreover have "0 \<le> p * 2" using assms(1) by simp
    ultimately show "(p * 2) ^ 3 \<le> 1" by (rule power_le_one [rotated])
  qed
  have d: "\<not> p < 0.5 \<Longrightarrow> ((1 - p) * 2) ^ 3 \<le> 1"
  proof -
    assume "\<not> p < 0.5"
    then have "(1 - p) * 2 \<le> 1" by simp
    moreover have "0 \<le> (1 - p) * 2" using assms(2) by simp
    ultimately show "((1 - p) * 2) ^ 3 \<le> 1" by (rule power_le_one [rotated])
  qed
  show "0 \<le> ease_fn Power2InOut p"
    using a d by (cases "p < 0.5") (simp_all del: power_mult_distrib)
  show "ease_fn Power2InOut p \<le> 1"
    using b c by (cases "p < 0.5") (simp_all del: power_mult_distrib)
qed

lemma hero_fields:
  "target hero_tw = [(Rotation FullGroup Ay, 2 * pi)]" "position hero_tw = 1.8"
  "duration hero_tw = 2.5" "ease hero_tw = Power2InOut" "onStart hero_tw = id"
  "onUpdate hero_tw = id" "onComplete hero_tw = spin_complete"
  by (simp_all add: hero_tw_def hero_def master_tl_def timeline_def to_def phase0_values mult.commute)

lemma local_time_hero: "0 \<le> local_time hero_tw t" "local_time hero_tw t \<le> 2.5"
  by (auto simp: local_time_def hero_fields max_def min_def)

lemma render_hero:
  assumes "spin_inv (s (Rotation FullGroup Ay)) r" and "ev \<or> local_time hero_tw t \<noteq> 2.5"
  shows "spin_inv (fst (render_tween ev t hero_tw r s) (Rotation FullGroup Ay))
           (snd (render_tween ev t hero_tw r s))"
proof (cases "local_time hero_tw t = rt_time r \<and> t \<noteq> position hero_tw")
  case True
  then show ?thesis using assms(1) by (simp add: render_tween_def Let_def)
next
  case False
  let ?q = "Rotation FullGroup Ay"
  let ?time = "local_time hero_tw t"
  let ?e = "ease_fn Power2InOut (?time / 2.5)"
  have vs0: "(case rt_from r of Some vs \<Rightarrow> vs | None \<Rightarrow> map (\<lambda>(p, v1). s p) (target hero_tw)) = [0]"
    using assms(1) by (auto simp: spin_inv_def hero_fields split: option.splits)
  have p: "0 \<le> ?time / 2.5" "?time / 2.5 \<le> 1"
    using local_time_hero [of t] by simp_all
  have e: "0 \<le> ?e" "?e \<le> 1"
    using power2InOut_unit [OF p] by simp_all
  have e0: "?time = 0 \<Longrightarrow> ?e = 0" by simp
  have b: "0 \<le> 2 * pi * ?e" "2 * pi * ?e \<le> 2 * pi"
  proof -
    show "0 \<le> 2 * pi * ?e" using e(1) by simp
    have "2 * pi * ?e \<le> 2 * pi * 1"
      using e(2) by (intro mult_left_mono) simp_all
    then show "2 * pi * ?e \<le> 2 * pi" by simp
  qed
  have fst_eq: "fst (render_tween ev t hero_tw r s) ?q =
      (if ev \<and> ?time = 2.5 then 0 else 2 * pi * ?e)"
    by (simp add: render_tween_run [OF False] Let_def vs0 hero_fields spin_complete_def
        del: ease_fn.simps)
  have snd_eq: "snd (render_tween ev t hero_tw r s) = \<lparr> rt_time = ?time, rt_from = Some [0] \<rparr>"
    using vs0 by (simp add: render_tween_run [OF False] Let_def)
  show ?thesis
    unfolding fst_eq snd_eq using b e0 assms(2) by (auto simp: spin_inv_def)
qed

lemma master_tl_hero:
  "master_tl = take 13 master_tl @ hero_tw # drop 14 master_tl"
  "length (take 13 master_tl) = 13"
  "list_all calm (take 13 master_tl)"
  "list_all calm (drop 14 master_tl)"
  "master_tl ! 13 = hero_tw"
proof -
  show "master_tl = take 13 master_tl @ hero_tw # drop 14 master_tl"
    by (simp add: master_tl_def timeline_def hero_tw_def hero_def)
  show "length (take 13 master_tl) = 13"
    by (simp add: master_tl_def timeline_def)
  show "list_all calm (take 13 master_tl)"
    by (simp add: master_tl_def timeline_def calm_def to_def xyz_def setOpacity_simps)
  show "list_all calm (drop 14 master_tl)"
    by (simp add: master_tl_def timeline_def calm_def to_def xyz_def setOpacity_simps
        hold_start_def reset_start_def set3_def Let_def)
  show "master_tl ! 13 = hero_tw"
    by (simp add: hero_tw_def hero_def)
qed

lemma render_backward_append:
  "render_backward ev t i (xs @ ys) sr =
     render_backward ev t i xs (render_backward ev t (i + length xs) ys sr)"
  by (induction xs arbitrary: i) (simp_all add: split_beta Let_def)

lemma forward_spin_split:
  assumes "spin_inv (s (Rotation FullGroup Ay)) (rt 13)" and "ev \<or> local_time hero_tw t \<noteq> 2.5"
    and pre: "length pre = 13" "list_all calm pre" and post: "list_all calm post"
  shows "spin_inv (fst (render_forward ev t 0 (pre @ hero_tw # post) (s, rt)) (Rotation FullGroup Ay))
           (snd (render_forward ev t 0 (pre @ hero_tw # post) (s, rt)) 13)"
proof -
  let ?q = "Rotation FullGroup Ay"
  let ?pre = pre and ?post = post
  obtain s1 rt1 where r1: "render_forward ev t 0 ?pre (s, rt) = (s1, rt1)"
    by (cases "render_forward ev t 0 ?pre (s, rt)")
  obtain s2 r2 where r2: "render_tween ev t hero_tw (rt1 13) s1 = (s2, r2)"
    by (cases "render_tween ev t hero_tw (rt1 13) s1")
  obtain s3 rt3 where r3: "render_forward ev t 14 ?post (s2, rt1(13 := r2)) = (s3, rt3)"
    by (cases "render_forward ev t 14 ?post (s2, rt1(13 := r2))")
  have all: "render_forward ev t 0 (?pre @ hero_tw # ?post) (s, rt) = (s3, rt3)"
    by (simp add: render_forward_append r1 r2 r3 pre(1))
  have "rt1 13 = rt 13"
    using render_forward_outside [of 13 0 ?pre ev t s rt] by (simp add: r1 pre(1))
  moreover have "s1 ?q = s ?q \<or> s1 ?q = 0"
    using render_forward_calm [OF pre(2), of ev t 0 s rt] by (simp add: r1)
  ultimately have 1: "spin_inv (s1 ?q) (rt1 13)"
    using assms(1) spin_inv_zero by auto
  have 2: "spin_inv (s2 ?q) r2"
    using render_hero [where s = s1 and r = "rt1 13", OF 1 assms(2)] by (simp add: r2)
  have "rt3 13 = r2"
    using render_forward_outside [of 13 14 ?post ev t s2 "rt1(13 := r2)"] by (simp add: r3)
  moreover have "s3 ?q = s2 ?q \<or> s3 ?q = 0"
    using render_forward_calm [OF post, of ev t 14 s2 "rt1(13 := r2)"] by (simp add: r3)
  ultimately have "spin_inv (s3 ?q) (rt3 13)"
    using 2 spin_inv_zero by auto
  then show ?thesis by (simp add: all)
qed

lemma backward_spin_split:
  assumes "spin_inv (s (Rotation FullGroup Ay)) (rt 13)" and "ev \<or> local_time hero_tw t \<noteq> 2.5"
    and pre: "length pre = 13" "list_all calm pre" and post: "list_all calm post"
  shows "spin_inv (fst (render_backward ev t 0 (pre @ hero_tw # post) (s, rt)) (Rotation FullGroup Ay))
           (snd (render_backward ev t 0 (pre @ hero_tw # post) (s, rt)) 13)"
proof -
  let ?q = "Rotation FullGroup Ay"
  let ?pre = pre and ?post = post
  obtain s1 rt1 where r1: "render_backward ev t 14 ?post (s, rt) = (s1, rt1)"
    by (cases "render_backward ev t 14 ?post (s, rt)")
  obtain s2 r2 where r2: "render_tween ev t hero_tw (rt1 13) s1 = (s2, r2)"
    by (cases "render_tween ev t hero_tw (rt1 13) s1")
  obtain s3 rt3 where r3: "render_backward ev t 0 ?pre (s2, rt1(13 := r2)) = (s3, rt3)"
    by (cases "render_backward ev t 0 ?pre (s2, rt1(13 := r2))")
  have all: "render_backward ev t 0 (?pre @ hero_tw # ?post) (s, rt) = (s3, rt3)"
    by (simp add: render_backward_append r1 r2 r3 pre(1))
  have "rt1 13 = rt 13"
    using render_backward_outside [of 13 14 ?post ev t s rt] by (simp add: r1)
  moreover have "s1 ?q = s ?q \<or> s1 ?q = 0"
    using render_backward_calm [OF post, of ev t 14 s rt] by (simp add: r1)
  ultimately have 1: "spin_inv (s1 ?q) (rt1 13)"
    using assms(1) spin_inv_zero by auto
  have 2: "spin_inv (s2 ?q) r2"
    using render_hero [where s = s1 and r = "rt1 13", OF 1 assms(2)] by (simp add: r2)
  have "rt3 13 = r2"
    using render_backward_outside [of 13 0 ?pre ev t s2 "rt1(13 := r2)"]
    by (simp add: r3 pre(1))
  moreover have "s3 ?q = s2 ?q \<or> s3 ?q = 0"
    using render_backward_calm [OF pre(2), of ev t 0 s2 "rt1(13 := r2)"] by (simp add: r3)
  ultimately have "spin_inv (s3 ?q) (rt3 13)"
    using 2 spin_inv_zero by auto
  then show ?thesis by (simp add: all)
qed

lemma forward_spin:
  assumes "spin_inv (s (Rotation FullGroup Ay)) (rt 13)" and "ev \<or> local_time hero_tw t \<noteq> 2.5"
  shows "spin_inv (fst (render_forward ev t 0 master_tl (s, rt)) (Rotation FullGroup Ay))
           (snd (render_forward ev t 0 master_tl (s, rt)) 13)"
  using forward_spin_split [where s = s and rt = rt, OF assms master_tl_hero(2,3,4)] master_tl_hero(1)
  by simp

lemma backward_spin:
  assumes "spin_inv (s (Rotation FullGroup Ay)) (rt 13)" and "ev \<or> local_time hero_tw t \<noteq> 2.5"
  shows "spin_inv (fst (render_backward ev t 0 master_tl (s, rt)) (Rotation FullGroup Ay))
           (snd (render_backward ev t 0 master_tl (s, rt)) 13)"
  using backward_spin_split [where s = s and rt = rt, OF assms master_tl_hero(2,3,4)] master_tl_hero(1)
  by simp

lemma seek_spin:
  assumes "spin_inv (store pl (Rotation FullGroup Ay)) (rts pl 13)"
    and "ev \<or> local_time hero_tw t \<noteq> 2.5"
  shows "spin_ok (seek ev t pl)"
proof -
  have "rt_time (rts (seek ev t pl) 13) = local_time hero_tw t"
    using seek_time [of 13 ev t pl] by (simp add: master_tl_last(3) master_tl_hero(5))
  moreover have "spin_inv (store (seek ev t pl) (Rotation FullGroup Ay)) (rts (seek ev t pl) 13)"
    using forward_spin [of "store pl" "rts pl" ev t] backward_spin [of "store pl" "rts pl" ev t] assms
    by (simp add: seek_def split_beta)
  ultimately show ?thesis by (simp add: spin_ok_def)
qed

lemma play_spin:
  assumes "spin_ok pl"
  shows "spin_ok (play dt pl)"
proof -
  have z: "local_time hero_tw (- 1 / 10000) \<noteq> 2.5"
    by (simp add: local_time_def hero_fields)
  have a: "spin_ok (seek True t pl')" if "spin_ok pl'" for t pl'
    using that seek_spin [of pl' True t] by (simp add: spin_ok_def)
  have b: "spin_ok (rewind pl')" if "spin_ok pl'" for pl'
    using that z seek_spin [of pl' False "- 1 / 10000"] by (simp add: spin_ok_def rewind_def)
  show ?thesis
    using assms by (simp add: play_def Let_def a b)
qed

lemma initial_spin: "spin_ok initial_player"
  by (simp add: spin_ok_def spin_inv_def initial_player_def phase0_values local_time_def hero_fields)

lemma fold_play_spin: "spin_ok pl \<Longrightarrow> spin_ok (fold play dts pl)"
  by (induction dts arbitrary: pl) (simp_all add: play_spin)

lemma playhead_play:
  "playhead (play dt pl) =
     (if dt = 0 \<or> playhead pl + dt \<le> loop_length then playhead pl + dt
      else playhead pl + dt - loop_length * of_int (\<lceil>(playhead pl + dt) / loop_length\<rceil> - 1))"
  by (simp add: play_def Let_def)

text \<open>
  Claim C6. The \<open>onComplete\<close> callback of the hero spin sets the rotation of the full
  group about the vertical axis to 0. Over any playback from the Phase-0 state, whatever
  the frame times and however many times the loop wraps, that rotation stays between 0
  and a full turn, and whenever the clock is at or past the end of the hero spin (4.3 s)
  it is exactly 0.
\<close>

theorem hero_spin_snaps_to_zero_and_stays_bounded:
  "onComplete (master_tl ! hero) s (Rotation FullGroup Ay) = 0 \<and>
   0 \<le> store (fold play dts initial_player) (Rotation FullGroup Ay) \<and>
   store (fold play dts initial_player) (Rotation FullGroup Ay) \<le> 2 * pi \<and>
   (4.3 \<le> playhead (fold play dts initial_player) \<longrightarrow>
      store (fold play dts initial_player) (Rotation FullGroup Ay) = 0)"
proof -
  let ?pl = "fold play dts initial_player"
  have ok: "spin_ok ?pl"
    using initial_spin by (rule fold_play_spin)
  have c: "onComplete (master_tl ! hero) s (Rotation FullGroup Ay) = 0"
    using hero_fields(7) by (simp add: hero_tw_def spin_complete_def)
  have "4.3 \<le> playhead ?pl \<Longrightarrow> local_time hero_tw (playhead ?pl) = 2.5"
    by (simp add: local_time_def hero_fields)
  then have "4.3 \<le> playhead ?pl \<Longrightarrow> store ?pl (Rotation FullGroup Ay) = 0"
    using ok by (simp add: spin_ok_def spin_inv_def)
  then show ?thesis
    using ok c by (simp add: spin_ok_def spin_inv_def)
qed

theorem hero_spin_snaps_to_zero_and_stays_bounded_witness:
  "(4.3::real) \<le> playhead (fold play [3, 3, 3, 3] initial_player) \<and>
   playhead (fold play [3, 3, 3, 3] initial_player) = 5.2 \<and>
   store (fold play [3, 3, 3, 3] initial_player) (Rotation FullGroup Ay) = 0"
proof -
  have i0: "playhead initial_player = 0"
    by (simp add: initial_player_def)
  have p: "playhead (play 3 (play 3 (play 3 (play 3 initial_player)))) = 5.2"
    by (simp add: playhead_play loop_length_eq i0)
  show ?thesis
    using hero_spin_snaps_to_zero_and_stays_bounded [of fresh "[3, 3, 3, 3]"] by (simp add: p)
qed


section \<open>Forward playback does not depend on the frame times\<close>

lemma local_on_outside: "local_on W f \<Longrightarrow> p \<notin> W \<Longrightarrow> f s p = s p"
  by (simp add: local_on_def)

lemma local_on_inside:
  "local_on W f \<Longrightarrow> (\<forall>p \<in> W. s p = s' p) \<Longrightarrow> p \<in> W \<Longrightarrow> f s p = f s' p"
  unfolding local_on_def by blast

lemma local_on_id: "local_on W id"
  by (simp add: local_on_def)

lemma local_on_comp:
  assumes "local_on W f" "local_on W g"
  shows "local_on W (\<lambda>s. g (f s))"
  unfolding local_on_def
proof (intro conjI allI impI ballI)
  fix s :: store and p assume "p \<notin> W"
  then show "g (f s) p = s p"
    using assms by (simp add: local_on_outside)
next
  fix s s' :: store and p assume a: "\<forall>p \<in> W. s p = s' p" and p: "p \<in> W"
  have "\<forall>q \<in> W. f s q = f s' q"
    using assms(1) a by (blast intro: local_on_inside)
  then show "g (f s) p = g (f s') p"
    using assms(2) p by (blast intro: local_on_inside)
qed

lemma local_on_upd: "p \<in> W \<Longrightarrow> local_on W (\<lambda>s. s(p := v))"
  by (auto simp: local_on_def)

lemma local_commute:
  assumes "local_on A f" "local_on B g" "A \<inter> B = {}"
  shows "f (g s) = g (f s)"
proof
  fix p
  consider "p \<in> A" | "p \<in> B" | "p \<notin> A" "p \<notin> B" by blast
  then show "f (g s) p = g (f s) p"
  proof cases
    case 1
    then have nb: "p \<notin> B" using assms(3) by blast
    have "\<forall>q \<in> A. g s q = s q"
      using assms(2,3) by (auto intro: local_on_outside)
    then have "f (g s) p = f s p"
      using assms(1) 1 by (blast intro: local_on_inside)
    moreover have "g (f s) p = f s p"
      using assms(2) nb by (rule local_on_outside)
    ultimately show ?thesis by simp
  next
    case 2
    then have na: "p \<notin> A" using assms(3) by blast
    have "\<forall>q \<in> B. f s q = s q"
      using assms(1,3) by (auto intro: local_on_outside)
    then have "g (f s) p = g s p"
      using assms(2) 2 by (blast intro: local_on_inside)
    moreover have "f (g s) p = g s p"
      using assms(1) na by (rule local_on_outside)
    ultimately show ?thesis by simp
  next
    case 3
    then show ?thesis
      using assms(1,2) by (simp add: local_on_outside)
  qed
qed

lemma write_props_point:
  "s p = s' p \<Longrightarrow> write_props e ps s p = write_props e ps s' p"
proof (induction ps arbitrary: s s')
  case Nil
  then show ?case by simp
next
  case (Cons u ps)
  obtain q v1 v0 where u: "u = ((q, v1), v0)" by (cases u) auto
  have "(s(q := v0 + (v1 - v0) * e)) p = (s'(q := v0 + (v1 - v0) * e)) p"
    using Cons.prems by simp
  then have "write_props e ps (s(q := v0 + (v1 - v0) * e)) p =
      write_props e ps (s'(q := v0 + (v1 - v0) * e)) p"
    by (rule Cons.IH)
  then show ?case by (simp add: u)
qed

lemma write_props_target:
  "p \<in> fst ` fst ` set ps \<Longrightarrow> write_props e ps s p = write_props e ps s' p"
proof (induction ps arbitrary: s s')
  case Nil
  then show ?case by simp
next
  case (Cons u ps)
  obtain q v1 v0 where u: "u = ((q, v1), v0)" by (cases u) auto
  show ?case
  proof (cases "p \<in> fst ` fst ` set ps")
    case True
    then have "write_props e ps (s(q := v0 + (v1 - v0) * e)) p =
        write_props e ps (s'(q := v0 + (v1 - v0) * e)) p"
      by (rule Cons.IH)
    then show ?thesis by (simp add: u)
  next
    case False
    with Cons.prems have "p = q" by (auto simp: u)
    then show ?thesis
      using False by (simp add: u write_props_other)
  qed
qed

lemma write_props_twice:
  "write_props e ps (write_props e' ps s) = write_props e ps s"
proof
  fix p
  show "write_props e ps (write_props e' ps s) p = write_props e ps s p"
  proof (cases "p \<in> fst ` fst ` set ps")
    case True
    then show ?thesis by (rule write_props_target)
  next
    case False
    then show ?thesis by (simp add: write_props_other)
  qed
qed

lemma render_tween_same_local:
  "local_time tw t = local_time tw t' \<Longrightarrow> t \<noteq> position tw \<Longrightarrow> t' \<noteq> position tw \<Longrightarrow>
   render_tween ev t tw r s = render_tween ev t' tw r s"
  by (simp add: render_tween_def Let_def)

lemma local_time_mono: "t' \<le> t \<Longrightarrow> local_time tw t' \<le> local_time tw t"
  by (auto simp: local_time_def max_def min_def)

lemma local_time_le: "local_time tw t \<le> max 0 (duration tw)"
  by (auto simp: local_time_def max_def min_def)

lemma local_time_before: "t \<le> position tw \<Longrightarrow> local_time tw t = 0"
  by (auto simp: local_time_def max_def min_def)

lemma local_time_after: "0 < duration tw \<Longrightarrow> position tw < t \<Longrightarrow> 0 < local_time tw t"
  by (auto simp: local_time_def max_def min_def)

lemma local_time_moves:
  assumes "local_time tw t' < local_time tw t"
  shows "t' < position tw + duration tw"
proof (rule ccontr)
  assume "\<not> t' < position tw + duration tw"
  then have "duration tw \<le> t' - position tw" by simp
  then have "local_time tw t' = max 0 (duration tw)"
    by (simp add: local_time_def min_def)
  with assms local_time_le [of tw t] show False by linarith
qed

lemma render_tween_outside:
  assumes "fits W tw" and "p \<notin> W"
  shows "fst (render_tween ev t tw r s) p = s p"
proof -
  have t: "p \<notin> fst ` set (target tw)"
    using assms by (auto simp: fits_def)
  have lo: "local_on W (onStart tw)" "local_on W (onUpdate tw)" "local_on W (onComplete tw)"
    using assms(1) by (simp_all add: fits_def)
  have c: "onStart tw s' p = s' p" "onUpdate tw s' p = s' p" "onComplete tw s' p = s' p" for s'
    using lo assms(2) by (simp_all add: local_on_outside)
  show ?thesis
    by (simp add: render_tween_def Let_def c write_props_zip_other [OF t])
qed

lemma render_tween_inside:
  assumes "fits W tw" and "\<forall>p \<in> W. s p = s' p"
  shows "\<forall>p \<in> W. fst (render_tween ev t tw r s) p = fst (render_tween ev t tw r s') p"
    and "snd (render_tween ev t tw r s) = snd (render_tween ev t tw r s')"
proof -
  let ?from = "\<lambda>s. case rt_from r of Some vs \<Rightarrow> vs | None \<Rightarrow> map (\<lambda>(p, v1). s p) (target tw)"
  let ?skip = "local_time tw t = rt_time r \<and> t \<noteq> position tw"
  have tg: "fst ` set (target tw) \<subseteq> W"
    using assms(1) by (simp add: fits_def)
  have lo: "local_on W (onStart tw)" "local_on W (onUpdate tw)" "local_on W (onComplete tw)"
    using assms(1) by (simp_all add: fits_def)
  have "map (\<lambda>(p, v1). s p) (target tw) = map (\<lambda>(p, v1). s' p) (target tw)"
    using tg assms(2) by (auto simp: split_beta)
  then have fr: "?from s = ?from s'"
    by (simp split: option.splits)
  show "snd (render_tween ev t tw r s) = snd (render_tween ev t tw r s')"
    using fr by (simp add: render_tween_def Let_def)
  define e where "e = ease_fn (ease tw) (local_time tw t / duration tw)"
  define a where
    "a = (\<lambda>s. if ev \<and> rt_time r = 0 \<and> local_time tw t \<noteq> 0 then onStart tw s else s)"
  define b where "b = (\<lambda>s1. write_props e (zip (target tw) (?from s)) s1)"
  define c where "c = (\<lambda>s2. if ev then onUpdate tw s2 else s2)"
  define d where "d = (\<lambda>s3. if ev \<and> local_time tw t = duration tw then onComplete tw s3 else s3)"
  have agree: "\<forall>p \<in> W. d (c (b (a s))) p = d (c (b (a s'))) p"
  proof -
    have 1: "\<forall>p \<in> W. a s p = a s' p"
      using lo(1) assms(2) by (auto simp: a_def intro: local_on_inside)
    have 2: "\<forall>p \<in> W. b (a s) p = b (a s') p"
      using 1 by (auto simp: b_def intro: write_props_point)
    have 3: "\<forall>p \<in> W. c (b (a s)) p = c (b (a s')) p"
      using lo(2) 2 by (auto simp: c_def intro: local_on_inside)
    show ?thesis
      using lo(3) 3 by (auto simp: d_def intro: local_on_inside)
  qed
  have r: "fst (render_tween ev t tw r s) = (if ?skip then s else d (c (b (a s))))"
    by (simp add: render_tween_def Let_def a_def b_def c_def d_def e_def)
  have r': "fst (render_tween ev t tw r s') = (if ?skip then s' else d (c (b (a s'))))"
    by (simp add: render_tween_def Let_def a_def b_def c_def d_def e_def fr)
  show "\<forall>p \<in> W. fst (render_tween ev t tw r s) p = fst (render_tween ev t tw r s') p"
    using agree assms(2) by (simp add: r r')
qed

lemma render_forward_Cons:
  "render_forward ev t i (tw # tws) sr = render_forward ev t (Suc i) tws (render_at ev t i tw sr)"
  by (cases sr) (simp add: render_at_def split_beta Let_def)

lemma render_at_other: "k \<noteq> i \<Longrightarrow> snd (render_at ev t i tw sr) k = snd sr k"
  by (simp add: render_at_def split_beta)

lemma render_at_time: "rt_time (snd (render_at ev t i tw sr) i) = local_time tw t"
  by (simp add: render_at_def split_beta render_tween_time)

lemma render_at_skip:
  "rt_time (snd sr i) = local_time tw t \<Longrightarrow> t \<noteq> position tw \<Longrightarrow> render_at ev t i tw sr = sr"
  by (cases sr) (simp add: render_at_def render_tween_skip)

lemma render_forward_other:
  "k < i \<Longrightarrow> snd (render_forward ev t i tws sr) k = snd sr k"
proof (induction tws arbitrary: i sr)
  case Nil
  then show ?case by simp
next
  case (Cons tw tws)
  then show ?case
    by (simp add: render_forward_Cons render_at_other del: render_forward.simps)
qed

lemma render_tween_merge:
  assumes "fits W tw" and "rt_time r = 0" and "t' \<le> t"
  shows "render_tween True t tw (snd (render_tween True t' tw r s)) (fst (render_tween True t' tw r s))
         = render_tween True t tw r s"
proof -
  let ?a = "local_time tw t'" and ?b = "local_time tw t"
  have D: "0 < duration tw" using assms(1) by (simp add: fits_def)
  have ab: "?a \<le> ?b" using assms(3) by (rule local_time_mono)
  have bD: "?b \<le> duration tw" using local_time_le [of tw t] D by (simp add: max_def)
  define fr where
    "fr = (case rt_from r of Some vs \<Rightarrow> vs | None \<Rightarrow> map (\<lambda>(p, v1). s p) (target tw))"
  define L where "L = zip (target tw) fr"
  define w where "w = (\<lambda>c. write_props (ease_fn (ease tw) (c / duration tw)) L)"
  define fin where "fin = (\<lambda>c. if c = duration tw then onComplete tw else id)"
  have shape: "target tw = [] \<or> onStart tw = id \<and> onUpdate tw = id"
    and one: "onStart tw = id \<or> onUpdate tw = id"
    and idem: "onUpdate tw (onUpdate tw x) = onUpdate tw x" for x
    using assms(1) by (simp_all add: fits_def)
  have key: "onUpdate tw (w c (onUpdate tw (w c' x))) = onUpdate tw (w c x)" for c c' x
    using shape
  proof
    assume "target tw = []"
    then have "L = []" by (simp add: L_def)
    then show ?thesis by (simp add: w_def idem)
  next
    assume "onStart tw = id \<and> onUpdate tw = id"
    then show ?thesis by (simp add: w_def write_props_twice)
  qed
  have key2: "onUpdate tw (w c (onStart tw (onUpdate tw (w c' x)))) =
      onUpdate tw (w c (onStart tw x))" for c c' x
    using shape
  proof
    assume "target tw = []"
    then have "L = []" by (simp add: L_def)
    then have wi: "w c'' y = y" for c'' y by (simp add: w_def)
    from one show ?thesis
    proof
      assume "onStart tw = id"
      then show ?thesis by (simp add: wi idem)
    next
      assume "onUpdate tw = id"
      then show ?thesis by (simp add: wi)
    qed
  next
    assume "onStart tw = id \<and> onUpdate tw = id"
    then show ?thesis by (simp add: w_def write_props_twice)
  qed
  have first_run: "render_tween True u tw r s =
      (fin (local_time tw u) (onUpdate tw (w (local_time tw u)
         ((if local_time tw u \<noteq> 0 then onStart tw else id) s))),
       \<lparr> rt_time = local_time tw u, rt_from = Some fr \<rparr>)"
    if "\<not> (local_time tw u = rt_time r \<and> u \<noteq> position tw)" for u
    using assms(2) by (simp add: render_tween_run [OF that] Let_def fr_def L_def w_def fin_def)
  have later_run: "render_tween True u tw \<lparr> rt_time = c, rt_from = Some fr \<rparr> y =
      (fin (local_time tw u) (onUpdate tw (w (local_time tw u)
         ((if c = 0 \<and> local_time tw u \<noteq> 0 then onStart tw else id) y))),
       \<lparr> rt_time = local_time tw u, rt_from = Some fr \<rparr>)"
    if "\<not> (local_time tw u = rt_time \<lparr> rt_time = c, rt_from = Some fr \<rparr> \<and> u \<noteq> position tw)"
    for u c y
    by (simp add: render_tween_run [OF that] Let_def L_def w_def fin_def)
  consider (before) "t' < position tw" | (at) "t' = position tw" | (after) "position tw < t'"
    by linarith
  then show ?thesis
  proof cases
    case before
    then have "?a = 0" by (simp add: local_time_before)
    then have "render_tween True t' tw r s = (s, r)"
      using assms(2) before by (simp add: render_tween_skip)
    then show ?thesis by simp
  next
    case at
    then have a: "?a = 0" by (simp add: local_time_before)
    have f: "render_tween True t' tw r s =
        (onUpdate tw (w 0 s), \<lparr> rt_time = 0, rt_from = Some fr \<rparr>)"
      using first_run [of t'] at a D by (simp add: fin_def)
    show ?thesis
    proof (cases "t = position tw")
      case True
      then have tt: "t = t'" using at by simp
      have "render_tween True t tw \<lparr> rt_time = 0, rt_from = Some fr \<rparr> (onUpdate tw (w 0 s)) =
          (onUpdate tw (w 0 (onUpdate tw (w 0 s))), \<lparr> rt_time = 0, rt_from = Some fr \<rparr>)"
        using later_run [of t 0 "onUpdate tw (w 0 s)"] True a tt D by (simp add: fin_def)
      then show ?thesis
        using f by (simp add: tt key)
    next
      case False
      then have "position tw < t" using at assms(3) by simp
      then have b0: "?b \<noteq> 0" using local_time_after [OF D, of t] by simp
      have "render_tween True t tw \<lparr> rt_time = 0, rt_from = Some fr \<rparr> (onUpdate tw (w 0 s)) =
          (fin ?b (onUpdate tw (w ?b (onStart tw (onUpdate tw (w 0 s))))),
           \<lparr> rt_time = ?b, rt_from = Some fr \<rparr>)"
        using later_run [of t 0 "onUpdate tw (w 0 s)"] b0 by simp
      moreover have "render_tween True t tw r s =
          (fin ?b (onUpdate tw (w ?b (onStart tw s))), \<lparr> rt_time = ?b, rt_from = Some fr \<rparr>)"
        using first_run [of t] b0 assms(2) by simp
      ultimately show ?thesis
        using f by (simp add: key2)
    qed
  next
    case after
    then have a1: "?a \<noteq> 0" using local_time_after [OF D, of t'] by simp
    have tP: "t \<noteq> position tw" "t' \<noteq> position tw"
      using after assms(3) by simp_all
    have f: "render_tween True t' tw r s =
        (fin ?a (onUpdate tw (w ?a (onStart tw s))), \<lparr> rt_time = ?a, rt_from = Some fr \<rparr>)"
      using first_run [of t'] a1 assms(2) by simp
    show ?thesis
    proof (cases "?a = ?b")
      case True
      have "render_tween True t tw \<lparr> rt_time = ?a, rt_from = Some fr \<rparr> y =
          (y, \<lparr> rt_time = ?a, rt_from = Some fr \<rparr>)" for y
        using True tP(1) by (simp add: render_tween_skip)
      moreover have "render_tween True t tw r s = render_tween True t' tw r s"
        using True tP by (simp add: render_tween_same_local [of tw t t'])
      ultimately show ?thesis
        using f by simp
    next
      case False
      with ab have lt: "?a < ?b" by simp
      then have aD: "?a \<noteq> duration tw" using bD by simp
      have b0: "?b \<noteq> 0" using lt local_time_mono [of t' t tw] a1 ab
        by (auto simp: local_time_def max_def min_def split: if_splits)
      have "render_tween True t tw \<lparr> rt_time = ?a, rt_from = Some fr \<rparr> y =
          (fin ?b (onUpdate tw (w ?b y)), \<lparr> rt_time = ?b, rt_from = Some fr \<rparr>)" for y
        using later_run [of t ?a y] False a1 by simp
      moreover have "render_tween True t tw r s =
          (fin ?b (onUpdate tw (w ?b (onStart tw s))), \<lparr> rt_time = ?b, rt_from = Some fr \<rparr>)"
        using first_run [of t] b0 assms(2) by simp
      ultimately show ?thesis
        using f aD by (simp add: fin_def key)
    qed
  qed
qed

lemma render_at_merge:
  assumes "fits W tw" and "rt_time (snd sr i) = 0" and "t' \<le> t"
  shows "render_at True t i tw (render_at True t' i tw sr) = render_at True t i tw sr"
proof -
  obtain s rt where sr: "sr = (s, rt)" by (cases sr)
  have m: "render_tween True t tw (snd (render_tween True t' tw (rt i) s))
      (fst (render_tween True t' tw (rt i) s)) = render_tween True t tw (rt i) s"
    using assms(1) _ assms(3) by (rule render_tween_merge) (use assms(2) sr in simp)
  show ?thesis
    by (simp add: sr render_at_def split_beta m)
qed

lemma render_at_commute:
  assumes "fits A a" and "fits B b" and "A \<inter> B = {}" and "i \<noteq> j"
  shows "render_at ev t i a (render_at ev' t' j b sr) = render_at ev' t' j b (render_at ev t i a sr)"
proof -
  obtain s rt where sr: "sr = (s, rt)" by (cases sr)
  define f where "f = (\<lambda>s. fst (render_tween ev t a (rt i) s))"
  define g where "g = (\<lambda>s. fst (render_tween ev' t' b (rt j) s))"
  have lf: "local_on A f"
    unfolding local_on_def f_def
    using render_tween_outside [OF assms(1)] render_tween_inside(1) [OF assms(1)] by blast
  have lg: "local_on B g"
    unfolding local_on_def g_def
    using render_tween_outside [OF assms(2)] render_tween_inside(1) [OF assms(2)] by blast
  have fg: "f (g s) = g (f s)"
    using lf lg assms(3) by (rule local_commute)
  have "\<forall>p \<in> A. g s p = s p"
    using lg assms(3) by (auto intro: local_on_outside)
  then have ra: "snd (render_tween ev t a (rt i) (g s)) = snd (render_tween ev t a (rt i) s)"
    using render_tween_inside(2) [OF assms(1)] by blast
  have "\<forall>p \<in> B. f s p = s p"
    using lf assms(3) by (auto intro: local_on_outside)
  then have rb: "snd (render_tween ev' t' b (rt j) (f s)) = snd (render_tween ev' t' b (rt j) s)"
    using render_tween_inside(2) [OF assms(2)] by blast
  have l: "render_at ev t i a (render_at ev' t' j b sr) =
      (f (g s), rt(j := snd (render_tween ev' t' b (rt j) s),
                   i := snd (render_tween ev t a (rt i) (g s))))"
    using assms(4) by (simp add: sr render_at_def split_beta f_def g_def)
  have r: "render_at ev' t' j b (render_at ev t i a sr) =
      (g (f s), rt(i := snd (render_tween ev t a (rt i) s),
                   j := snd (render_tween ev' t' b (rt j) (f s))))"
    using assms(4) by (simp add: sr render_at_def split_beta f_def g_def)
  show ?thesis
    using assms(4) by (simp add: l r fg ra rb fun_upd_twist)
qed

lemma render_at_past:
  assumes "fits (set A) a" and "i < j"
    and "list_all (\<lambda>(b, B). fits (set B) b) rest"
    and "list_all (\<lambda>(b, B). set A \<inter> set B = {} \<or> t' < position b) rest"
    and "\<forall>k \<ge> j. rt_time (snd sr k) = 0"
  shows "render_at ev t i a (render_forward ev' t' j (map fst rest) sr) =
         render_forward ev' t' j (map fst rest) (render_at ev t i a sr)"
  using assms(2-5)
proof (induction rest arbitrary: j sr)
  case Nil
  then show ?case by simp
next
  case (Cons u rest)
  obtain b B where u: "u = (b, B)" by (cases u)
  let ?X = "render_at ev' t' j b sr"
  have fb: "fits (set B) b" and frest: "list_all (\<lambda>(b, B). fits (set B) b) rest"
    using Cons.prems(2) by (simp_all add: u)
  have cb: "set A \<inter> set B = {} \<or> t' < position b"
    and crest: "list_all (\<lambda>(b, B). set A \<inter> set B = {} \<or> t' < position b) rest"
    using Cons.prems(3) by (simp_all add: u)
  have zX: "\<forall>k \<ge> Suc j. rt_time (snd ?X k) = 0"
    using Cons.prems(4) by (simp add: render_at_other)
  have ij: "i \<noteq> j" "i < Suc j" using Cons.prems(1) by simp_all
  have swap: "render_at ev t i a ?X = render_at ev' t' j b (render_at ev t i a sr)"
    using cb
  proof
    assume "set A \<inter> set B = {}"
    with assms(1) fb show ?thesis
      using ij(1) by (rule render_at_commute)
  next
    assume z: "t' < position b"
    then have l0: "local_time b t' = 0" and ne: "t' \<noteq> position b"
      by (simp_all add: local_time_before)
    have "rt_time (snd sr j) = local_time b t'"
      using Cons.prems(4) l0 by simp
    then have 1: "?X = sr" using ne by (rule render_at_skip)
    have "rt_time (snd (render_at ev t i a sr) j) = local_time b t'"
      using Cons.prems(4) l0 ij(1) by (simp add: render_at_other)
    then have "render_at ev' t' j b (render_at ev t i a sr) = render_at ev t i a sr"
      using ne by (rule render_at_skip)
    with 1 show ?thesis by simp
  qed
  have "render_at ev t i a (render_forward ev' t' j (map fst (u # rest)) sr) =
      render_at ev t i a (render_forward ev' t' (Suc j) (map fst rest) ?X)"
    by (simp add: u render_forward_Cons del: render_forward.simps)
  also have "\<dots> = render_forward ev' t' (Suc j) (map fst rest) (render_at ev t i a ?X)"
    using ij(2) frest crest zX by (rule Cons.IH)
  also have "\<dots> = render_forward ev' t' (Suc j) (map fst rest)
      (render_at ev' t' j b (render_at ev t i a sr))"
    by (simp only: swap)
  also have "\<dots> = render_forward ev' t' j (map fst (u # rest)) (render_at ev t i a sr)"
    by (simp add: u render_forward_Cons del: render_forward.simps)
  finally show ?case .
qed

lemma scheduled_fits: "scheduled tws \<Longrightarrow> list_all (\<lambda>(b, B). fits (set B) b) tws"
  by (induction tws rule: scheduled.induct) simp_all

lemma forward_merge:
  assumes "scheduled tws" and "t' \<le> t" and "\<forall>k \<ge> i. rt_time (snd sr k) = 0"
  shows "render_forward True t i (map fst tws) (render_forward True t' i (map fst tws) sr) =
         render_forward True t i (map fst tws) sr"
  using assms(1,3)
proof (induction tws arbitrary: i sr)
  case Nil
  then show ?case by simp
next
  case (Cons u rest)
  obtain a A where u: "u = (a, A)" by (cases u)
  let ?R = "map fst rest"
  let ?X = "render_at True t' i a sr"
  let ?D = "render_at True t i a sr"
  have fa: "fits (set A) a" and sched: "scheduled rest"
    and ord: "list_all (\<lambda>(b, B). set A \<inter> set B = {} \<or> position a + duration a \<le> position b) rest"
    using Cons.prems(1) by (simp_all add: u)
  have z0: "rt_time (snd sr i) = 0" using Cons.prems(2) by simp
  have zX: "\<forall>k \<ge> Suc i. rt_time (snd ?X k) = 0"
    using Cons.prems(2) by (simp add: render_at_other)
  have zD: "\<forall>k \<ge> Suc i. rt_time (snd ?D k) = 0"
    using Cons.prems(2) by (simp add: render_at_other)
  have pass1: "render_forward True t' i (map fst (u # rest)) sr = render_forward True t' (Suc i) ?R ?X"
    by (simp add: u render_forward_Cons del: render_forward.simps)
  have direct: "render_forward True t i (map fst (u # rest)) sr = render_forward True t (Suc i) ?R ?D"
    by (simp add: u render_forward_Cons del: render_forward.simps)
  have pass2: "render_forward True t i (map fst (u # rest)) (render_forward True t' (Suc i) ?R ?X) =
      render_forward True t (Suc i) ?R (render_at True t i a (render_forward True t' (Suc i) ?R ?X))"
    by (simp add: u render_forward_Cons del: render_forward.simps)
  have mono: "local_time a t' \<le> local_time a t"
    using assms(2) by (rule local_time_mono)
  have Da: "0 < duration a" using fa by (simp add: fits_def)
  have moved: "render_at True t i a (render_forward True t' (Suc i) ?R ?X) =
      render_forward True t' (Suc i) ?R ?D"
  proof (cases "local_time a t' = local_time a t \<and> t \<noteq> position a")
    case True
    have t'P: "t' \<noteq> position a"
    proof
      assume e: "t' = position a"
      then have "position a < t" using True assms(2) by simp
      then have "0 < local_time a t" by (rule local_time_after [OF Da])
      moreover have "local_time a t' = 0" using e by (simp add: local_time_before)
      ultimately show False using True by simp
    qed
    have "snd (render_forward True t' (Suc i) ?R ?X) i = snd ?X i"
      by (simp add: render_forward_other)
    then have "rt_time (snd (render_forward True t' (Suc i) ?R ?X) i) = local_time a t"
      using True by (simp add: render_at_time)
    then have "render_at True t i a (render_forward True t' (Suc i) ?R ?X) =
        render_forward True t' (Suc i) ?R ?X"
      using True by (intro render_at_skip) simp_all
    moreover have "?D = ?X"
      using True t'P by (simp add: render_at_def render_tween_same_local [of a t t'])
    ultimately show ?thesis by simp
  next
    case False
    have before: "t' < position a + duration a"
    proof (cases "local_time a t' = local_time a t")
      case True
      with False have "t = position a" by simp
      then show ?thesis using assms(2) Da by simp
    next
      case False
      with mono have "local_time a t' < local_time a t" by simp
      then show ?thesis by (rule local_time_moves)
    qed
    have c: "list_all (\<lambda>(b, B). set A \<inter> set B = {} \<or> t' < position b) rest"
      using ord before by (auto simp: list_all_iff)
    have "render_at True t i a (render_forward True t' (Suc i) ?R ?X) =
        render_forward True t' (Suc i) ?R (render_at True t i a ?X)"
      using fa _ scheduled_fits [OF sched] c zX by (rule render_at_past) simp
    moreover have "render_at True t i a ?X = ?D"
      using fa z0 assms(2) by (rule render_at_merge)
    ultimately show ?thesis by simp
  qed
  have "render_forward True t (Suc i) ?R (render_forward True t' (Suc i) ?R ?D) =
      render_forward True t (Suc i) ?R ?D"
    using sched zD by (rule Cons.IH)
  then show ?case
    by (simp only: pass1 pass2 direct moved)
qed

lemma duration_to [simp]: "duration (to vars d e pos) = d"
  by (simp add: to_def)

lemma master_fp_tweens: "map fst master_fp = master_tl"
  by (simp add: master_fp_def master_tl_def timeline_def footprints_def)

lemma fits_to [simp]: "fits W (to vars d e pos) = (0 < d \<and> fst ` set vars \<subseteq> W)"
  by (simp add: fits_def to_def local_on_id)

lemma fits_onStart [simp]:
  "fits W ((to [] d e pos)\<lparr> onStart := f \<rparr>) = (0 < d \<and> local_on W f)"
  by (auto simp: fits_def to_def local_on_id)

lemma fits_onComplete [simp]:
  "fits W ((to vars d e pos)\<lparr> onComplete := f \<rparr>) = (0 < d \<and> fst ` set vars \<subseteq> W \<and> local_on W f)"
  by (auto simp: fits_def to_def local_on_id)

lemma fits_onUpdate [simp]:
  "fits W ((to [] d e pos)\<lparr> onUpdate := f \<rparr>) = (0 < d \<and> local_on W f \<and> (\<forall>s. f (f s) = f s))"
  by (auto simp: fits_def to_def local_on_id)

lemma local_on_setOpacity:
  "Opacity BigHeartPlane \<in> W \<Longrightarrow> local_on W (setOpacity heartGroup v)"
  "Opacity TextPlane \<in> W \<Longrightarrow> local_on W (setOpacity textGroup v)"
  "Opacity SmallHeartPlane \<in> W \<Longrightarrow> local_on W (setOpacity smallHeartPlane v)"
  "Opacity TextPlane \<in> W \<Longrightarrow> Opacity SmallHeartPlane \<in> W \<Longrightarrow> local_on W (setOpacity addonGroup v)"
  "Opacity GlowPlane \<in> W \<Longrightarrow> local_on W (setOpacity glowGroup v)"
  by (auto simp: local_on_def setOpacity_simps)

lemma local_on_spin_complete: "Rotation FullGroup Ay \<in> W \<Longrightarrow> local_on W spin_complete"
  by (auto simp: local_on_def spin_complete_def)

lemma local_on_hold_start:
  "local_on (set (vec (Scale HeartGroup) @ [Opacity BigHeartPlane])) hold_start"
  by (auto simp: local_on_def hold_start_def set3_def setOpacity_simps vec_def)

lemma local_on_reset_start: "local_on (set mutable_props) reset_start"
  by (simp add: local_on_def callbacks_other(8) reset_start_phase0)

lemma master_scheduled: "scheduled master_fp"
  using local_on_hold_start local_on_reset_start
  by (simp add: master_fp_def timeline_def footprints_def xyz_def vec_def mutable_props_def
      local_on_setOpacity local_on_spin_complete setOpacity_simps)

lemma seek_forward_merge:
  assumes "\<forall>k. rt_time (rts pl k) = 0" and "playhead pl \<le> t'" and "t' \<le> t"
  shows "seek True t (seek True t' pl) = seek True t pl"
proof -
  let ?sr = "(store pl, rts pl)"
  have m: "render_forward True t 0 master_tl (render_forward True t' 0 master_tl ?sr) =
      render_forward True t 0 master_tl ?sr"
    using forward_merge [OF master_scheduled assms(3), of 0 ?sr] assms(1)
    by (simp add: master_fp_tweens)
  have 1: "seek True t' pl =
      \<lparr> store = fst (render_forward True t' 0 master_tl ?sr),
         rts = snd (render_forward True t' 0 master_tl ?sr), playhead = t' \<rparr>"
    using assms(2) by (simp add: seek_def split_beta)
  have 2: "seek True t pl =
      \<lparr> store = fst (render_forward True t 0 master_tl ?sr),
         rts = snd (render_forward True t 0 master_tl ?sr), playhead = t \<rparr>"
    using assms(2,3) by (simp add: seek_def split_beta)
  have n: "\<not> t < t'" "\<not> t < playhead pl"
    using assms(2,3) by simp_all
  show ?thesis
    using n by (simp add: 1 2 seek_def [of True t] split_beta m)
qed


section \<open>The loop\<close>

subsection \<open>Start values, once recorded, are kept\<close>

lemma render_tween_from_kept:
  "rt_from r = Some vs \<Longrightarrow> rt_from (snd (render_tween ev t tw r s)) = Some vs"
  by (simp add: render_tween_def Let_def)

lemma render_forward_from_kept:
  "rt_from (rt k) = Some vs \<Longrightarrow> rt_from (snd (render_forward ev t i tws (s, rt)) k) = Some vs"
proof (induction tws arbitrary: i s rt)
  case Nil
  then show ?case by simp
next
  case (Cons tw tws)
  obtain s1 r1 where X: "render_tween ev t tw (rt i) s = (s1, r1)"
    by (cases "render_tween ev t tw (rt i) s")
  have "rt_from ((rt(i := r1)) k) = Some vs"
    using Cons.prems render_tween_from_kept [of "rt i" vs ev t tw s] by (auto simp: X)
  then have "rt_from (snd (render_forward ev t (Suc i) tws (s1, rt(i := r1))) k) = Some vs"
    by (rule Cons.IH)
  then show ?case by (simp add: X)
qed

lemma render_backward_from_kept:
  "rt_from (rt k) = Some vs \<Longrightarrow> rt_from (snd (render_backward ev t i tws (s, rt)) k) = Some vs"
proof (induction tws arbitrary: i)
  case Nil
  then show ?case by simp
next
  case (Cons tw tws)
  obtain s1 rt1 where B: "render_backward ev t (Suc i) tws (s, rt) = (s1, rt1)"
    by (cases "render_backward ev t (Suc i) tws (s, rt)")
  have "rt_from (rt1 k) = Some vs"
    using Cons.IH [OF Cons.prems, of "Suc i"] by (simp add: B)
  then show ?case
    using render_tween_from_kept [of "rt1 i" vs ev t tw s1] by (auto simp: B split_beta)
qed

lemma seek_from_kept:
  "rt_from (rts pl k) = Some vs \<Longrightarrow> rt_from (rts (seek ev t pl) k) = Some vs"
  by (simp add: seek_def split_beta render_forward_from_kept render_backward_from_kept)

lemma render_tween_none:
  "(rt_from r = None \<longrightarrow> rt_time r = 0) \<Longrightarrow>
   (rt_from (snd (render_tween ev t tw r s)) = None \<longrightarrow> rt_time (snd (render_tween ev t tw r s)) = 0)"
  by (simp add: render_tween_def Let_def)

lemma render_forward_none:
  "\<forall>k. rt_from (rt k) = None \<longrightarrow> rt_time (rt k) = 0 \<Longrightarrow>
   rt_from (snd (render_forward ev t i tws (s, rt)) k) = None \<Longrightarrow>
   rt_time (snd (render_forward ev t i tws (s, rt)) k) = 0"
proof (induction tws arbitrary: i s rt)
  case Nil
  then show ?case by simp
next
  case (Cons tw tws)
  obtain s1 r1 where X: "render_tween ev t tw (rt i) s = (s1, r1)"
    by (cases "render_tween ev t tw (rt i) s")
  have "rt_from r1 = None \<longrightarrow> rt_time r1 = 0"
    using render_tween_none [of "rt i" ev t tw s] Cons.prems(1) by (simp add: X)
  then have inv: "\<forall>j. rt_from ((rt(i := r1)) j) = None \<longrightarrow> rt_time ((rt(i := r1)) j) = 0"
    using Cons.prems(1) by simp
  have "rt_from (snd (render_forward ev t (Suc i) tws (s1, rt(i := r1))) k) = None"
    using Cons.prems(2) by (simp add: X)
  with inv have "rt_time (snd (render_forward ev t (Suc i) tws (s1, rt(i := r1))) k) = 0"
    by (rule Cons.IH)
  then show ?case by (simp add: X)
qed

lemma seek_outside: "length master_tl \<le> k \<Longrightarrow> rts (seek ev t pl) k = rts pl k"
  using render_forward_outside [of k 0 master_tl ev t "store pl" "rts pl"]
    render_backward_outside [of k 0 master_tl ev t "store pl" "rts pl"]
  by (simp add: seek_def split_beta)

subsection \<open>Rendering with start values already recorded\<close>

text \<open>
  A pass over the timeline gives the same store whether a tween records its start
  values in the pass or finds recorded the very values it would record.
\<close>

lemma pick_right: "A \<or> B \<Longrightarrow> \<not> A \<Longrightarrow> B"
  by blast

lemma render_tween_cached:
  assumes "rt_time r' = rt_time r" and "\<not> (local_time tw t = rt_time r \<and> t \<noteq> position tw)"
    and "rt_from r' = rt_from (snd (render_tween ev t tw r s))"
  shows "render_tween ev t tw r' s = render_tween ev t tw r s"
proof -
  have n': "\<not> (local_time tw t = rt_time r' \<and> t \<noteq> position tw)"
    using assms(1,2) by simp
  have "rt_from r' =
      Some (case rt_from r of Some vs \<Rightarrow> vs | None \<Rightarrow> map (\<lambda>(p, v1). s p) (target tw))"
    using assms(3) by (simp add: render_tween_run [OF assms(2)] Let_def)
  then show ?thesis
    by (simp add: render_tween_run [OF assms(2)] render_tween_run [OF n'] Let_def assms(1))
qed

lemma render_forward_cache:
  assumes "\<forall>k. rt_time (rt' k) = rt_time (rt k)"
    and "\<forall>k. rt_from (snd (render_forward ev t i tws (s, rt)) k) = None \<or>
             rt_from (rt' k) = rt_from (snd (render_forward ev t i tws (s, rt)) k)"
  shows "fst (render_forward ev t i tws (s, rt')) = fst (render_forward ev t i tws (s, rt)) \<and>
         (\<forall>k. rt_time (snd (render_forward ev t i tws (s, rt')) k) =
              rt_time (snd (render_forward ev t i tws (s, rt)) k)) \<and>
         (\<forall>k. rt_from (snd (render_forward ev t i tws (s, rt)) k) \<noteq> None \<longrightarrow>
              snd (render_forward ev t i tws (s, rt')) k =
              snd (render_forward ev t i tws (s, rt)) k)"
  using assms
proof (induction tws arbitrary: i s rt rt')
  case Nil
  have "rt' k = rt k" if "rt_from (rt k) \<noteq> None" for k
  proof (rule tween_rt.equality)
    show "rt_time (rt' k) = rt_time (rt k)" using Nil.prems(1) by simp
    show "rt_from (rt' k) = rt_from (rt k)" using Nil.prems(2) [rule_format, of k] that by simp
  qed simp
  then show ?case using Nil.prems(1) by simp
next
  case (Cons a tws)
  obtain s1 r1 where X: "render_tween ev t a (rt i) s = (s1, r1)"
    by (cases "render_tween ev t a (rt i) s")
  let ?G = "snd (render_forward ev t (Suc i) tws (s1, rt(i := r1)))"
  have G: "render_forward ev t i (a # tws) (s, rt) =
      render_forward ev t (Suc i) tws (s1, rt(i := r1))"
    by (simp add: X)
  have Gi: "?G i = r1"
    using render_forward_outside [of i "Suc i" tws ev t s1 "rt(i := r1)"] by simp
  note P2 = Cons.prems(2) [unfolded G]
  show ?case
  proof (cases "local_time a t = rt_time (rt i) \<and> t \<noteq> position a")
    case True
    then have s: "s1 = s" "r1 = rt i"
      using X by (simp_all add: render_tween_skip)
    have "render_tween ev t a (rt' i) s = (s, rt' i)"
      using True Cons.prems(1) by (simp add: render_tween_skip)
    then have G': "render_forward ev t i (a # tws) (s, rt') =
        render_forward ev t (Suc i) tws (s, rt')"
      by simp
    have G0: "render_forward ev t i (a # tws) (s, rt) =
        render_forward ev t (Suc i) tws (s, rt)"
      by (simp add: X s)
    show ?thesis
      unfolding G0 G' by (rule Cons.IH [OF Cons.prems(1) Cons.prems(2) [unfolded G0]])
  next
    case False
    have r1: "r1 = snd (render_tween ev t a (rt i) s)" by (simp add: X)
    have some: "rt_from r1 \<noteq> None"
      by (simp add: r1 render_tween_run [OF False] Let_def)
    have nn: "rt_from (?G i) \<noteq> None"
      unfolding Gi by (rule some)
    have d: "rt_from (?G i) = None \<or> rt_from (rt' i) = rt_from (?G i)"
      using P2 by (rule spec)
    have "rt_from (rt' i) = rt_from (?G i)"
      by (rule pick_right [OF d nn])
    then have "rt_from (rt' i) = rt_from r1"
      by (simp only: Gi)
    then have "rt_from (rt' i) = rt_from (snd (render_tween ev t a (rt i) s))"
      by (simp only: X snd_conv)
    then have "render_tween ev t a (rt' i) s = render_tween ev t a (rt i) s"
      using Cons.prems(1) False by (intro render_tween_cached) simp_all
    then have G': "render_forward ev t i (a # tws) (s, rt') =
        render_forward ev t (Suc i) tws (s1, rt'(i := r1))"
      by (simp add: X)
    have 1: "\<forall>k. rt_time ((rt'(i := r1)) k) = rt_time ((rt(i := r1)) k)"
      using Cons.prems(1) by simp
    have 2: "\<forall>k. rt_from (?G k) = None \<or> rt_from ((rt'(i := r1)) k) = rt_from (?G k)"
    proof
      fix k
      show "rt_from (?G k) = None \<or> rt_from ((rt'(i := r1)) k) = rt_from (?G k)"
      proof (cases "k = i")
        case True
        then show ?thesis by (simp add: Gi)
      next
        case False
        then show ?thesis using P2 [rule_format, of k] by simp
      qed
    qed
    show ?thesis
      unfolding G G' by (rule Cons.IH [OF 1 2])
  qed
qed

lemma seek_cache:
  assumes "playhead pl \<le> t" and "playhead pl' \<le> t" and "store pl' = store pl"
    and "\<forall>k. rt_time (rts pl' k) = rt_time (rts pl k)"
    and "\<forall>k. rt_from (rts (seek ev t pl) k) = None \<or>
             rt_from (rts pl' k) = rt_from (rts (seek ev t pl) k)"
  shows "store (seek ev t pl') = store (seek ev t pl)"
    and "\<forall>k. rt_from (rts (seek ev t pl) k) \<noteq> None \<longrightarrow>
             rts (seek ev t pl') k = rts (seek ev t pl) k"
proof -
  have f: "seek ev t pl =
      \<lparr> store = fst (render_forward ev t 0 master_tl (store pl, rts pl)),
         rts = snd (render_forward ev t 0 master_tl (store pl, rts pl)), playhead = t \<rparr>"
    using assms(1) by (simp add: seek_def split_beta)
  have f': "seek ev t pl' =
      \<lparr> store = fst (render_forward ev t 0 master_tl (store pl, rts pl')),
         rts = snd (render_forward ev t 0 master_tl (store pl, rts pl')), playhead = t \<rparr>"
    using assms(2,3) by (simp add: seek_def split_beta)
  have 2: "\<forall>k. rt_from (snd (render_forward ev t 0 master_tl (store pl, rts pl)) k) = None \<or>
      rt_from (rts pl' k) = rt_from (snd (render_forward ev t 0 master_tl (store pl, rts pl)) k)"
    using assms(5) by (simp add: f)
  note c = render_forward_cache [OF assms(4) 2]
  show "store (seek ev t pl') = store (seek ev t pl)"
    using c by (simp add: f f')
  show "\<forall>k. rt_from (rts (seek ev t pl) k) \<noteq> None \<longrightarrow>
      rts (seek ev t pl') k = rts (seek ev t pl) k"
    using c by (simp add: f f')
qed

subsection \<open>The end of the first iteration and the start of the second\<close>

lemma initial_fields:
  "store initial_player = phase0" "playhead initial_player = 0"
  "rts initial_player k = \<lparr> rt_time = 0, rt_from = None \<rparr>"
  by (simp_all add: initial_player_def)

lemma master_tl_span:
  "list_all (\<lambda>tw. 0 \<le> position tw \<and> position tw < loop_length \<and> 0 < duration tw) master_tl"
  by (simp add: loop_length_eq master_tl_def timeline_def)

lemma master_tl_member:
  assumes "tw \<in> set master_tl"
  shows "0 \<le> position tw" "position tw < loop_length" "0 < duration tw"
  using master_tl_span assms by (auto simp: list_all_iff)

lemma loop_store:
  assumes "rt_time (rts pl 26) = 0" and "playhead pl \<le> loop_length"
    and "\<forall>p. p \<notin> set mutable_props \<longrightarrow> store pl p = phase0 p"
  shows "store (seek True loop_length pl) = phase0"
proof
  fix p
  show "store (seek True loop_length pl) p = phase0 p"
  proof (cases "p \<in> set mutable_props")
    case True
    with assms(1,2) show ?thesis by (rule end_of_loop)
  next
    case False
    then show ?thesis using assms(3) by (simp add: seek_frame)
  qed
qed

lemma first_end_store: "store first_end = phase0"
  unfolding first_end_def
  by (rule loop_store) (simp_all add: initial_fields loop_length_eq)

lemma first_end_playhead: "playhead first_end = loop_length"
  by (simp add: first_end_def)

lemma seek_forward_none:
  assumes "playhead pl \<le> t" and "\<forall>k. rt_from (rts pl k) = None \<longrightarrow> rt_time (rts pl k) = 0"
    and "rt_from (rts (seek ev t pl) k) = None"
  shows "rt_time (rts (seek ev t pl) k) = 0"
  using assms render_forward_none [of "rts pl" ev t 0 master_tl "store pl" k]
  by (simp add: seek_def split_beta)

lemma first_end_recorded:
  assumes "k < length master_tl"
  shows "rt_from (rts first_end k) \<noteq> None"
proof
  assume n: "rt_from (rts first_end k) = None"
  have tw: "master_tl ! k \<in> set master_tl" using assms by simp
  have "rt_time (rts first_end k) = 0"
    using n unfolding first_end_def
    by (intro seek_forward_none) (simp_all add: initial_fields loop_length_eq)
  moreover have "rt_time (rts first_end k) = local_time (master_tl ! k) loop_length"
    unfolding first_end_def using assms by (rule seek_time)
  moreover have "0 < local_time (master_tl ! k) loop_length"
    using master_tl_member(2,3) [OF tw] by (intro local_time_after)
  ultimately show False by simp
qed

lemma next_start_playhead: "playhead next_start = - 1 / 10000"
  by (simp add: next_start_def rewind_def)

lemma next_start_times: "rt_time (rts next_start k) = 0"
proof (cases "k < length master_tl")
  case True
  then have tw: "master_tl ! k \<in> set master_tl" by simp
  have "rt_time (rts next_start k) = local_time (master_tl ! k) (- 1 / 10000)"
    unfolding next_start_def rewind_def using True by (rule seek_time)
  also have "\<dots> = 0"
    using master_tl_member(1) [OF tw] by (intro local_time_before) simp
  finally show ?thesis .
next
  case False
  then show ?thesis
    by (simp add: next_start_def rewind_def first_end_def seek_outside initial_fields)
qed

lemma next_start_from:
  "rt_from (rts first_end k) = Some vs \<Longrightarrow> rt_from (rts next_start k) = Some vs"
  by (simp add: next_start_def rewind_def seek_from_kept)

subsection \<open>Rewinding restores the Phase-0 state\<close>

text \<open>
  The rewind runs no callback; it writes back, last tween first, the start values the
  tweens recorded. For a property that some tween targets, the value that remains is
  the start value of the first tween that targets it, and no callback of an earlier
  tween has written that property before this tween recorded it.
\<close>

lemma ease_zero: "ease_fn e 0 = 0"
  by (cases e) simp_all

lemma write_props_start:
  "p \<in> fst ` set tg \<Longrightarrow> write_props 0 (zip tg (map (\<lambda>(q, v1). s1 q) tg)) s p = s1 p"
proof (induction tg arbitrary: s)
  case Nil
  then show ?case by simp
next
  case (Cons u tg)
  obtain q v where u: "u = (q, v)" by (cases u)
  show ?case
  proof (cases "p \<in> fst ` set tg")
    case True
    then show ?thesis by (simp add: u Cons.IH)
  next
    case False
    with Cons.prems have "p = q" by (simp add: u)
    then show ?thesis
      using False by (simp add: u write_props_zip_other)
  qed
qed

lemma render_tween_quiet:
  "p \<notin> fst ` set (target tw) \<Longrightarrow> fst (render_tween False t tw r s) p = s p"
  by (simp add: render_tween_def Let_def write_props_zip_other)

lemma render_backward_quiet:
  "\<forall>tw \<in> set tws. p \<notin> fst ` set (target tw) \<Longrightarrow>
   fst (render_backward False t i tws (s, rt)) p = s p"
proof (induction tws arbitrary: i)
  case Nil
  then show ?case by simp
next
  case (Cons tw tws)
  then show ?case
    by (simp add: split_beta render_tween_quiet)
qed

lemma rewound_untargeted:
  assumes "\<forall>tw \<in> set master_tl. p \<notin> fst ` set (target tw)"
  shows "store next_start p = phase0 p"
proof -
  have "store next_start p = store first_end p"
    using render_backward_quiet [OF assms, of "- 1 / 10000" 0 "store first_end" "rts first_end"]
    by (simp add: next_start_def rewind_def seek_def [of False] split_beta first_end_playhead
        loop_length_eq)
  then show ?thesis by (simp add: first_end_store)
qed

lemma rewound_target_split:
  assumes "master_tl = pre @ tw # post" and "list_all (keeps p) pre"
    and "p \<in> fst ` set (target tw)"
  shows "store next_start p = phase0 p"
proof -
  let ?k = "length pre" and ?L = loop_length
  define u :: real where "u = - 1 / 10000"
  have u: "u < 0" "u < loop_length" by (simp_all add: u_def loop_length_eq)
  have ns: "next_start = seek False u first_end"
    by (simp add: next_start_def rewind_def u_def)
  have mem: "tw \<in> set master_tl" by (simp add: assms(1))
  note span = master_tl_member [OF mem]
  obtain s1 rt1 where F1:
    "render_forward True ?L 0 pre (phase0, rts initial_player) = (s1, rt1)"
    by (cases "render_forward True ?L 0 pre (phase0, rts initial_player)")
  have s1p: "s1 p = phase0 p"
    using render_forward_keeps [OF assms(2), of True ?L 0 phase0 "rts initial_player"]
    by (simp add: F1)
  have rt1k: "rt1 ?k = \<lparr> rt_time = 0, rt_from = None \<rparr>"
    using render_forward_outside [of ?k 0 pre True ?L phase0 "rts initial_player"]
    by (simp add: F1 initial_fields)
  have lL: "0 < local_time tw ?L"
    using span(3,2) by (rule local_time_after)
  define r2 where
    "r2 = \<lparr> rt_time = local_time tw ?L, rt_from = Some (map (\<lambda>(q, v1). s1 q) (target tw)) \<rparr>"
  have run: "\<not> (local_time tw ?L = rt_time (rt1 ?k) \<and> ?L \<noteq> position tw)"
    using lL by (simp add: rt1k)
  have X: "snd (render_tween True ?L tw (rt1 ?k) s1) = r2"
    unfolding render_tween_run [OF run] Let_def by (simp add: rt1k r2_def)
  have E: "rts first_end ?k = r2"
  proof -
    obtain s2 where X2: "render_tween True ?L tw (rt1 ?k) s1 = (s2, r2)"
      using X by (cases "render_tween True ?L tw (rt1 ?k) s1") simp
    have "render_forward True ?L 0 master_tl (phase0, rts initial_player) =
        render_forward True ?L (Suc ?k) post (s2, rt1(?k := r2))"
      by (simp add: assms(1) render_forward_append F1 X2)
    moreover have "snd (render_forward True ?L (Suc ?k) post (s2, rt1(?k := r2))) ?k = r2"
      using render_forward_outside [of ?k "Suc ?k" post True ?L s2 "rt1(?k := r2)"] by simp
    ultimately show ?thesis
      by (simp add: first_end_def seek_def [of True] split_beta initial_fields loop_length_eq)
  qed
  obtain s3 rt3 where B1:
    "render_backward False u (Suc ?k) post (store first_end, rts first_end) = (s3, rt3)"
    by (cases "render_backward False u (Suc ?k) post (store first_end, rts first_end)")
  have rt3k: "rt3 ?k = r2"
    using render_backward_outside [of ?k "Suc ?k" post False u "store first_end" "rts first_end"]
    by (simp add: B1 E)
  have lu: "local_time tw u = 0"
    using span(1) u(1) by (intro local_time_before) simp
  have run': "\<not> (local_time tw u = rt_time r2 \<and> u \<noteq> position tw)"
    using lL by (simp add: lu r2_def)
  have Y: "fst (render_tween False u tw r2 s3) p = s1 p"
    unfolding render_tween_run [OF run'] Let_def using assms(3)
    by (simp add: lu r2_def ease_zero write_props_start)
  have "render_backward False u 0 master_tl (store first_end, rts first_end) =
      render_backward False u 0 pre
        (fst (render_tween False u tw r2 s3), rt3(?k := snd (render_tween False u tw r2 s3)))"
    by (simp add: assms(1) render_backward_append B1 rt3k split_beta)
  then have "store next_start p =
      fst (render_backward False u 0 pre
        (fst (render_tween False u tw r2 s3), rt3(?k := snd (render_tween False u tw r2 s3)))) p"
    using u(2) by (simp add: ns seek_def [of False] split_beta first_end_playhead)
  also have "\<dots> = fst (render_tween False u tw r2 s3) p"
    using assms(2) by (rule render_backward_keeps)
  finally show ?thesis by (simp add: Y s1p)
qed

lemma rewound_target:
  assumes "k < length master_tl" and "list_all (keeps p) (take k master_tl)"
    and "p \<in> fst ` set (target (master_tl ! k))"
  shows "store next_start p = phase0 p"
  using id_take_nth_drop [OF assms(1)] assms(2,3) by (rule rewound_target_split)

lemma target_to [simp]: "target (to vars d e pos) = vars"
  by (simp add: to_def)

lemma axis_cases: "a = Ax \<or> a = Ay \<or> a = Az"
  by (cases a) simp_all

lemmas rewound_defs = master_tl_def timeline_def xyz_targets vec_def axis_cases setOpacity_simps
  spin_complete_def

lemma rewound_groups:
  "store next_start (Scale HeartGroup a) = phase0 (Scale HeartGroup a)"
  "store next_start (CamState a) = phase0 (CamState a)"
  "store next_start (Scale TextGroup a) = phase0 (Scale TextGroup a)"
  "store next_start (Position SmallHeartPlane a) = phase0 (Position SmallHeartPlane a)"
  "store next_start (Scale AddonGroup a) = phase0 (Scale AddonGroup a)"
  "store next_start (Rotation SmallHeartPlane Az) = phase0 (Rotation SmallHeartPlane Az)"
  "store next_start (Scale GlowGroup a) = phase0 (Scale GlowGroup a)"
  "store next_start (Rotation FullGroup Ay) = phase0 (Rotation FullGroup Ay)"
  "store next_start (Scale FullGroup a) = phase0 (Scale FullGroup a)"
  "store next_start (Position AddonGroup a) = phase0 (Position AddonGroup a)"
  "store next_start (Rotation AddonGroup Az) = phase0 (Rotation AddonGroup Az)"
  "store next_start (Rotation AddonGroup Ay) = phase0 (Rotation AddonGroup Ay)"
proof -
  show "store next_start (Scale HeartGroup a) = phase0 (Scale HeartGroup a)"
    by (rule rewound_target [of 0]) (simp_all add: rewound_defs)
  show "store next_start (CamState a) = phase0 (CamState a)"
    by (rule rewound_target [of 2]) (simp_all add: rewound_defs)
  show "store next_start (Scale TextGroup a) = phase0 (Scale TextGroup a)"
    by (rule rewound_target [of 3]) (simp_all add: rewound_defs)
  show "store next_start (Position SmallHeartPlane a) = phase0 (Position SmallHeartPlane a)"
    by (rule rewound_target [of 6]) (simp_all add: rewound_defs)
  show "store next_start (Scale AddonGroup a) = phase0 (Scale AddonGroup a)"
    by (rule rewound_target [of 7]) (simp_all add: rewound_defs)
  show "store next_start (Rotation SmallHeartPlane Az) = phase0 (Rotation SmallHeartPlane Az)"
    by (rule rewound_target [of 10]) (simp_all add: rewound_defs)
  show "store next_start (Scale GlowGroup a) = phase0 (Scale GlowGroup a)"
    by (rule rewound_target [of 11]) (simp_all add: rewound_defs)
  show "store next_start (Rotation FullGroup Ay) = phase0 (Rotation FullGroup Ay)"
    by (rule rewound_target [of 13]) (simp_all add: rewound_defs)
  show "store next_start (Scale FullGroup a) = phase0 (Scale FullGroup a)"
    by (rule rewound_target [of 14]) (simp_all add: rewound_defs)
  show "store next_start (Position AddonGroup a) = phase0 (Position AddonGroup a)"
    by (rule rewound_target [of 17]) (simp_all add: rewound_defs)
  show "store next_start (Rotation AddonGroup Az) = phase0 (Rotation AddonGroup Az)"
    by (rule rewound_target [of 19]) (simp_all add: rewound_defs)
  show "store next_start (Rotation AddonGroup Ay) = phase0 (Rotation AddonGroup Ay)"
    by (rule rewound_target [of 19]) (simp_all add: rewound_defs)
qed

lemma rewound_rest:
  "store next_start (Opacity ob) = phase0 (Opacity ob)"
  "store next_start (Rotation TextGroup a) = phase0 (Rotation TextGroup a)"
  "store next_start (Position GlowGroup a) = phase0 (Position GlowGroup a)"
  "store next_start (Rotation SmallHeartPlane Ax) = phase0 (Rotation SmallHeartPlane Ax)"
  "store next_start (Rotation SmallHeartPlane Ay) = phase0 (Rotation SmallHeartPlane Ay)"
  "store next_start (Rotation AddonGroup Ax) = phase0 (Rotation AddonGroup Ax)"
  "store next_start (Rotation FullGroup Ax) = phase0 (Rotation FullGroup Ax)"
  "store next_start (Rotation FullGroup Az) = phase0 (Rotation FullGroup Az)"
  by (rule rewound_untargeted, simp add: master_tl_def timeline_def xyz_targets vec_def)+

lemma next_start_store: "store next_start = phase0"
proof
  fix p
  show "store next_start p = phase0 p"
  proof (cases "p \<in> set mutable_props")
    case True
    then show ?thesis
      by (auto simp: mutable_props_def vec_def rewound_groups rewound_rest)
  next
    case False
    then show ?thesis
      by (simp add: next_start_def rewind_def seek_frame first_end_store)
  qed
qed

subsection \<open>The second iteration is like the first\<close>

text \<open>
  The start values that the rewound player carries are those that an evaluation from
  the initial player records, at whatever clock value it is made; so both give the same
  store, and rendering the rewound player at the end of the loop gives the player at
  the end of the first iteration again.
\<close>

lemma recorded_by_then:
  assumes "0 \<le> t" and "t \<le> loop_length"
  shows "rt_from (rts (seek True t initial_player) k) = None \<or>
         rt_from (rts next_start k) = rt_from (rts (seek True t initial_player) k)"
proof (cases "rt_from (rts (seek True t initial_player) k)")
  case None
  then show ?thesis by simp
next
  case (Some vs)
  have "seek True loop_length (seek True t initial_player) = first_end"
    unfolding first_end_def using assms
    by (intro seek_forward_merge) (simp_all add: initial_fields)
  then have "rt_from (rts first_end k) = Some vs"
    using seek_from_kept [OF Some, of True loop_length] by simp
  then have "rt_from (rts next_start k) = Some vs"
    by (rule next_start_from)
  then show ?thesis by (simp add: Some)
qed

lemma second_like_first:
  assumes "0 \<le> t" and "t \<le> loop_length"
  shows "store (seek True t next_start) = store (seek True t initial_player)"
    and "\<forall>k. rt_from (rts (seek True t initial_player) k) \<noteq> None \<longrightarrow>
             rts (seek True t next_start) k = rts (seek True t initial_player) k"
proof -
  have 1: "playhead initial_player \<le> t" using assms(1) by (simp add: initial_fields)
  have 2: "playhead next_start \<le> t" using assms(1) by (simp add: next_start_playhead)
  have 3: "store next_start = store initial_player"
    by (simp add: next_start_store initial_fields)
  have 4: "\<forall>k. rt_time (rts next_start k) = rt_time (rts initial_player k)"
    by (simp add: next_start_times initial_fields)
  have 5: "\<forall>k. rt_from (rts (seek True t initial_player) k) = None \<or>
      rt_from (rts next_start k) = rt_from (rts (seek True t initial_player) k)"
    using recorded_by_then [OF assms] by simp
  show "store (seek True t next_start) = store (seek True t initial_player)"
    using 1 2 3 4 5 by (rule seek_cache(1))
  show "\<forall>k. rt_from (rts (seek True t initial_player) k) \<noteq> None \<longrightarrow>
      rts (seek True t next_start) k = rts (seek True t initial_player) k"
    using 1 2 3 4 5 by (rule seek_cache(2))
qed

lemma second_end: "seek True loop_length next_start = first_end"
proof (rule player.equality)
  have L: "0 \<le> loop_length" by (simp add: loop_length_eq)
  note s = second_like_first [OF L order_refl]
  show "store (seek True loop_length next_start) = store first_end"
    using s(1) by (simp add: first_end_def)
  show "rts (seek True loop_length next_start) = rts first_end"
  proof
    fix k
    show "rts (seek True loop_length next_start) k = rts first_end k"
    proof (cases "k < length master_tl")
      case True
      then have "rt_from (rts first_end k) \<noteq> None" by (rule first_end_recorded)
      then show ?thesis
        using s(2) by (simp add: first_end_def)
    next
      case False
      then show ?thesis
        by (simp add: seek_outside next_start_def rewind_def)
    qed
  qed
  show "playhead (seek True loop_length next_start) = playhead first_end"
    by (simp add: first_end_def)
qed simp

subsection \<open>Playback stays on track\<close>

text \<open>
  Every frame of playback leads from a player on track to a player on track: within an
  iteration because forward playback does not depend on the frame times, across the end
  of the loop because every iteration ends in the same player.
\<close>

lemma wrap_range:
  assumes "loop_length < t"
  shows "0 < t - loop_length * of_int (\<lceil>t / loop_length\<rceil> - 1)"
    and "t - loop_length * of_int (\<lceil>t / loop_length\<rceil> - 1) \<le> loop_length"
proof -
  define c :: real where "c = of_int \<lceil>t / loop_length\<rceil>"
  have L: "0 < loop_length" by (simp add: loop_length_eq)
  have "c - 1 < t / loop_length" "t / loop_length \<le> c"
    unfolding c_def by linarith+
  then have a: "(c - 1) * loop_length < t" and b: "t \<le> c * loop_length"
    using L by (simp_all add: pos_less_divide_eq pos_divide_le_eq)
  have e: "loop_length * of_int (\<lceil>t / loop_length\<rceil> - 1) = (c - 1) * loop_length"
    by (simp add: c_def mult.commute)
  show "0 < t - loop_length * of_int (\<lceil>t / loop_length\<rceil> - 1)"
    unfolding e using a by simp
  show "t - loop_length * of_int (\<lceil>t / loop_length\<rceil> - 1) \<le> loop_length"
    unfolding e using b by (simp add: algebra_simps)
qed

lemma on_track_range:
  assumes "on_track pl"
  shows "0 \<le> playhead pl" "playhead pl \<le> loop_length"
  using assms by (auto simp: on_track_def initial_fields loop_length_eq)

lemma on_track_end:
  assumes "on_track pl"
  shows "seek True loop_length pl = first_end"
proof -
  let ?u = "playhead pl"
  consider "pl = initial_player"
    | "0 < ?u" "?u \<le> loop_length" "pl = seek True ?u initial_player"
    | "0 < ?u" "?u \<le> loop_length" "pl = seek True ?u next_start"
    using assms by (auto simp: on_track_def)
  then show ?thesis
  proof cases
    case 1
    then show ?thesis by (simp add: first_end_def)
  next
    case 2
    have "seek True loop_length (seek True ?u initial_player) = seek True loop_length initial_player"
      using 2(1,2) by (intro seek_forward_merge) (simp_all add: initial_fields)
    then show ?thesis using 2(3) by (simp add: first_end_def)
  next
    case 3
    have "seek True loop_length (seek True ?u next_start) = seek True loop_length next_start"
      using 3(1,2) by (intro seek_forward_merge) (simp_all add: next_start_times next_start_playhead)
    then show ?thesis using 3(3) by (simp add: second_end)
  qed
qed

lemma on_track_forward:
  assumes "on_track pl" and "playhead pl < t" and "t \<le> loop_length"
  shows "on_track (seek True t pl)"
proof -
  let ?u = "playhead pl"
  have t0: "0 < t" using on_track_range(1) [OF assms(1)] assms(2) by simp
  consider "pl = initial_player"
    | "0 < ?u" "pl = seek True ?u initial_player"
    | "0 < ?u" "pl = seek True ?u next_start"
    using assms(1) by (auto simp: on_track_def)
  then have "seek True t pl = seek True t initial_player \<or> seek True t pl = seek True t next_start"
  proof cases
    case 1
    then show ?thesis by simp
  next
    case 2
    have "seek True t (seek True ?u initial_player) = seek True t initial_player"
      using 2(1) assms(2) by (intro seek_forward_merge) (simp_all add: initial_fields)
    then show ?thesis using 2(2) by simp
  next
    case 3
    have "seek True t (seek True ?u next_start) = seek True t next_start"
      using 3(1) assms(2)
      by (intro seek_forward_merge) (simp_all add: next_start_times next_start_playhead)
    then show ?thesis using 3(2) by simp
  qed
  then show ?thesis
    using t0 assms(3) by (simp add: on_track_def)
qed

lemma play_on_track:
  assumes "on_track pl" and "0 \<le> d"
  shows "on_track (play d pl)"
proof (cases "d = 0")
  case True
  then show ?thesis using assms(1) by (simp add: play_def)
next
  case False
  then have d: "0 < d" using assms(2) by simp
  define t where "t = playhead pl + d"
  show ?thesis
  proof (cases "t \<le> loop_length")
    case True
    have "on_track (seek True t pl)"
      using assms(1) _ True by (rule on_track_forward) (simp add: t_def d)
    then show ?thesis
      using False True by (simp add: play_def Let_def t_def)
  next
    case over: False
    define t' where "t' = t - loop_length * of_int (\<lceil>t / loop_length\<rceil> - 1)"
    have r: "0 < t'" "t' \<le> loop_length"
      using over wrap_range [of t] by (simp_all add: t'_def)
    have "play d pl = seek True t' (rewind (seek True loop_length pl))"
      using False over by (simp add: play_def Let_def t_def t'_def)
    also have "\<dots> = seek True t' next_start"
      by (simp add: on_track_end [OF assms(1)] next_start_def)
    finally show ?thesis
      using r by (simp add: on_track_def)
  qed
qed

lemma fold_play_on_track:
  "list_all (\<lambda>d. 0 \<le> d) dts \<Longrightarrow> on_track pl \<Longrightarrow> on_track (fold play dts pl)"
  by (induction dts arbitrary: pl) (simp_all add: play_on_track)

lemma playback_on_track: "list_all (\<lambda>d. 0 \<le> d) dts \<Longrightarrow> on_track (fold play dts initial_player)"
  by (rule fold_play_on_track) (simp_all add: on_track_def)

lemma on_track_store:
  assumes "on_track pl"
  shows "store pl = advance (playhead pl)"
proof -
  let ?u = "playhead pl"
  consider "pl = initial_player"
    | "0 < ?u" "?u \<le> loop_length" "pl = seek True ?u initial_player"
    | "0 < ?u" "?u \<le> loop_length" "pl = seek True ?u next_start"
    using assms by (auto simp: on_track_def)
  then show ?thesis
  proof cases
    case 1
    then show ?thesis by (simp add: advance_def initial_fields)
  next
    case 2
    have "store pl = store (seek True ?u initial_player)" using 2(3) by simp
    then show ?thesis using 2(1) by (simp add: advance_def)
  next
    case 3
    have "store (seek True ?u next_start) = store (seek True ?u initial_player)"
      using 3(1,2) by (intro second_like_first(1)) simp_all
    then have "store pl = store (seek True ?u initial_player)" using 3(3) by simp
    then show ?thesis using 3(1) by (simp add: advance_def)
  qed
qed

subsection \<open>The reset and the seam of the loop\<close>

text \<open>
  Claim C2. Whatever the store was, after the callback of the reset phase every property
  of the list (the scale and opacity of the heart, the scale, rotation and opacity of
  the text, the position, rotation and opacity of the small heart, the position, scale,
  rotation and opacity of the add-on group, the scale, position and opacity of the glow,
  the rotation and scale of the full group, and \<open>camState\<close>) has the value that the
  block INITIAL STATE left it with. That callback is the \<open>onStart\<close> of the last call
  of the timeline, and a property outside the list is targeted by no tween and written
  by no callback. And over any playback from the Phase-0 state, with any frame times
  and after any number of iterations: when the timeline is rendered at the end of the
  loop the whole store is the Phase-0 store, it still is after the engine has rewound
  the timeline for the next iteration, and a frame that lands exactly on the end of the
  loop shows the Phase-0 store. So the state at the end of an iteration is the state
  at the start of the next.
\<close>

theorem reset_restores_phase0:
  "(\<forall>p \<in> set mutable_props. reset_start s p = phase0 p) \<and>
   onStart (last (timeline phase0)) = reset_start \<and>
   (\<forall>p. p \<notin> set mutable_props \<longrightarrow> list_all (keeps p) (timeline phase0)) \<and>
   (list_all (\<lambda>d. 0 \<le> d) dts \<longrightarrow>
      store (seek True loop_length (fold play dts initial_player)) = phase0 \<and>
      store (rewind (seek True loop_length (fold play dts initial_player))) = phase0 \<and>
      (playhead (fold play dts initial_player) = loop_length \<longrightarrow>
         store (fold play dts initial_player) = phase0))"
proof (intro conjI impI)
  show "\<forall>p \<in> set mutable_props. reset_start s p = phase0 p"
    by (simp add: reset_start_phase0)
  show "onStart (last (timeline phase0)) = reset_start"
    by (simp add: timeline_def)
  show "\<forall>p. p \<notin> set mutable_props \<longrightarrow> list_all (keeps p) (timeline phase0)"
    by (simp add: timeline_keeps)
next
  let ?pl = "fold play dts initial_player"
  assume "list_all (\<lambda>d. 0 \<le> d) dts"
  then have t: "on_track ?pl" by (rule playback_on_track)
  have e: "seek True loop_length ?pl = first_end"
    using t by (rule on_track_end)
  show "store (seek True loop_length ?pl) = phase0"
    by (simp add: e first_end_store)
  show "store (rewind (seek True loop_length ?pl)) = phase0"
    using next_start_store by (simp add: e next_start_def)
  assume "playhead ?pl = loop_length"
  then have "store ?pl = advance loop_length"
    using on_track_store [OF t] by simp
  also have "\<dots> = store first_end"
    by (simp add: advance_def first_end_def loop_length_eq)
  finally show "store ?pl = phase0"
    by (simp add: first_end_store)
qed

theorem reset_restores_phase0_witness:
  "Scale HeartGroup Ax \<in> set mutable_props \<and>
   reset_start fresh (Scale HeartGroup Ax) = 0.8 \<and>
   phase0 (Scale HeartGroup Ax) = 0.8 \<and>
   Opacity TextPlane \<in> set mutable_props \<and>
   reset_start fresh (Opacity TextPlane) = 1 \<and>
   phase0 (Opacity TextPlane) = 1 \<and>
   Scale BigHeartPlane Ax \<notin> set mutable_props \<and>
   list_all (keeps (Scale BigHeartPlane Ax)) (timeline phase0) \<and>
   list_all (\<lambda>d. 0 \<le> d) [3, 19 / 5 :: real] \<and>
   playhead (fold play [3, 19 / 5] initial_player) = loop_length \<and>
   store (fold play [3, 19 / 5] initial_player) (Scale HeartGroup Ax) = 0.8 \<and>
   store (seek True loop_length (fold play [3, 19 / 5] initial_player)) (Opacity BigHeartPlane) = 0 \<and>
   store (rewind (seek True loop_length (fold play [3, 19 / 5] initial_player))) (CamState Ay) = 0.3"
proof -
  have m: "Scale HeartGroup Ax \<in> set mutable_props" "Opacity TextPlane \<in> set mutable_props"
    and n: "Scale BigHeartPlane Ax \<notin> set mutable_props"
    by (simp_all add: mutable_props_def vec_def)
  have d: "list_all (\<lambda>d. 0 \<le> d) [3, 19 / 5 :: real]" by simp
  have p: "playhead (play (19 / 5) (play 3 initial_player)) = loop_length"
    by (simp add: playhead_play loop_length_eq initial_fields)
  show ?thesis
    using m n d p reset_restores_phase0 [of fresh "[3, 19 / 5]"]
    by (simp add: phase0_values)
qed

subsection \<open>The pose is a function of the clock\<close>

text \<open>
  Claim C7. The program evaluates the timeline by playing it: frame after frame the
  clock moves forward, and at the end of the loop it wraps. Over any such playback from
  the Phase-0 state, with any frame times and after any number of iterations, the clock
  stays between 0 and the length of the loop and the store (every transform, every
  opacity and the camera state) is the pose that belongs to the clock value: what one
  evaluation at that clock value makes of the Phase-0 state. So two playbacks that
  stand at the same clock value have the same store, whatever was evaluated on the way.
\<close>

theorem playback_is_a_function_of_the_clock:
  assumes "list_all (\<lambda>d. 0 \<le> d) dts"
  shows "store (fold play dts initial_player) = advance (playhead (fold play dts initial_player)) \<and>
         0 \<le> playhead (fold play dts initial_player) \<and>
         playhead (fold play dts initial_player) \<le> loop_length \<and>
         (list_all (\<lambda>d. 0 \<le> d) dts' \<and>
          playhead (fold play dts' initial_player) = playhead (fold play dts initial_player) \<longrightarrow>
            store (fold play dts' initial_player) = store (fold play dts initial_player))"
proof -
  have t: "on_track (fold play dts initial_player)"
    using assms by (rule playback_on_track)
  have "store (fold play dts' initial_player) = store (fold play dts initial_player)"
    if "list_all (\<lambda>d. 0 \<le> d) dts'"
      and "playhead (fold play dts' initial_player) = playhead (fold play dts initial_player)"
    using on_track_store [OF playback_on_track [OF that(1)]] on_track_store [OF t] that(2)
    by simp
  then show ?thesis
    using on_track_store [OF t] on_track_range [OF t] by blast
qed

lemma glow_at_two: "advance 2 (Opacity GlowPlane) = 0.6"
  by (simp add: advance_def tl_defs engine_defs setOpacity_simps phase0_values spin_complete_def
      hold_start_def)

theorem playback_is_a_function_of_the_clock_witness:
  "list_all (\<lambda>d. 0 \<le> d) [5 / 2, 5 / 2, 5 / 2, 13 / 10 :: real] \<and>
   list_all (\<lambda>d. 0 \<le> d) [2 :: real] \<and>
   playhead (fold play [5 / 2, 5 / 2, 5 / 2, 13 / 10] initial_player) = 2 \<and>
   playhead (fold play [2] initial_player) = 2 \<and>
   store (fold play [2] initial_player) = store (fold play [5 / 2, 5 / 2, 5 / 2, 13 / 10] initial_player) \<and>
   store (fold play [5 / 2, 5 / 2, 5 / 2, 13 / 10] initial_player) (Opacity GlowPlane) = 0.6"
proof -
  have d: "list_all (\<lambda>d. 0 \<le> d) [5 / 2, 5 / 2, 5 / 2, 13 / 10 :: real]"
    and d': "list_all (\<lambda>d. 0 \<le> d) [2 :: real]"
    by simp_all
  have p: "playhead (play (13 / 10) (play (5 / 2) (play (5 / 2) (play (5 / 2) initial_player)))) = 2"
    by (simp add: playhead_play loop_length_eq initial_fields)
  have p': "playhead (play 2 initial_player) = 2"
    by (simp add: playhead_play loop_length_eq initial_fields)
  show ?thesis
    using d d' p p' playback_is_a_function_of_the_clock [OF d, of "[2]"]
    by (simp add: glow_at_two)
qed

text \<open>
  A tween is rendered at the very instant it begins: at 5 s the update callback of the
  eject phase has already hidden the text and the small heart, just before it has not.
\<close>

lemma eject_begins:
  "advance 5 (Opacity TextPlane) = 0 \<and> advance 5 (Opacity SmallHeartPlane) = 0 \<and>
   advance (49 / 10) (Opacity TextPlane) = 1"
  by (simp add: advance_def tl_defs engine_defs setOpacity_simps phase0_values spin_complete_def
      hold_start_def)

text \<open>
  The playback matters: the program never moves the clock back other than by the wrap.
  A caller that evaluated the timeline at 2 s and then at 1 s would find the glow lit
  at 1 s, where playback shows it dark, because nothing undoes the \<open>onStart\<close> callback
  that lit it.
\<close>

lemma seeking_back_differs:
  "store (seek True 1 (seek True 2 initial_player)) (Opacity GlowPlane) = 0.6 \<and>
   advance 1 (Opacity GlowPlane) = 0"
  by (simp add: advance_def tl_defs engine_defs setOpacity_simps phase0_values spin_complete_def
      hold_start_def)


end
